theory Spec2Isabelle
  imports Complex_Main "HOL-Library.AList" "HOL-Library.Multiset" "HOL-Library.Sublist"
    "HOL-Library.Char_ord" "HOL-Library.List_Lexorder"
begin

section \<open>The tiered cache (services/cache_service.py)\<close>

text \<open>
  Timestamps are the results of \<^verbatim>\<open>time.time()\<close>; they are modelled as real numbers, so the
  rounding of floating-point subtraction is not part of the model. Every reading of the
  clock is an explicit argument of the operation that reads it. A TTL is a Python
  \<^verbatim>\<open>int\<close>. The field \<^verbatim>\<open>value\<close> of the source is called \<open>val\<close> here.
\<close>

record 'v CacheEntry =
  key :: string
  val :: 'v
  ttl :: int
  created_at :: real
  access_count :: int
  last_accessed :: real

text \<open>
  A row of the SQLite table \<^verbatim>\<open>cache\<close>; the primary key is kept outside the row. The column
  \<^verbatim>\<open>value\<close> holds the JSON text of the cached value.
\<close>

record DbRow =
  row_value :: string
  row_ttl :: int
  row_created_at :: real
  row_access_count :: int
  row_last_accessed :: real

text \<open>
  \<^verbatim>\<open>_memory_cache\<close> is a Python dictionary. Dictionaries iterate in insertion order and the
  eviction sweep sorts stably, so the order matters: the dictionary is an association list
  with distinct keys, \<open>AList.update\<close> being \<^verbatim>\<open>d[k] = v\<close> (in place for a key that is
  present, at the end for a new one) and \<open>AList.delete\<close> being \<^verbatim>\<open>del d[k]\<close>.
  The table of the database is an association list from the primary key to the row.
\<close>

record 'v CacheService =
  memory_cache :: "(string \<times> 'v CacheEntry) list"
  max_memory_entries :: int
  db :: "(string \<times> DbRow) list"

definition cache_inv :: "'v CacheService \<Rightarrow> bool" where
  "cache_inv s \<longleftrightarrow> distinct (map fst (memory_cache s)) \<and> 0 \<le> max_memory_entries s"

definition init_cache :: "int \<Rightarrow> 'v CacheService" where
  "init_cache n = \<lparr>memory_cache = [], max_memory_entries = n, db = []\<rparr>"

text \<open>The test \<^verbatim>\<open>current_time - entry.created_at >= entry.ttl\<close> of the sweep.\<close>

definition is_expired :: "real \<Rightarrow> 'v CacheEntry \<Rightarrow> bool" where
  "is_expired current_time entry \<longleftrightarrow> current_time - created_at entry \<ge> of_int (ttl entry)"

text \<open>
  \<^verbatim>\<open>_cleanup_memory_cache\<close>: collect the keys of the expired entries; when the entries that
  are left still outnumber \<^verbatim>\<open>max_memory_entries\<close>, sort them by \<^verbatim>\<open>last_accessed\<close> (Python's
  \<^verbatim>\<open>sorted\<close> is stable, as \<open>sort_key\<close> is) and add the keys of the first
  \<^verbatim>\<open>excess_count\<close> of them (\<open>keys_to_delete\<close> is the list of that name in the source);
  then delete every collected key. The collected keys are distinct keys of the dictionary,
  so no \<^verbatim>\<open>del\<close> raises.
\<close>

definition keys_to_delete :: "real \<Rightarrow> 'v CacheService \<Rightarrow> string list" where
  "keys_to_delete current_time s =
    (let cache = memory_cache s;
         expired = map fst (filter (\<lambda>(k, entry). is_expired current_time entry) cache)
     in if int (length cache) - int (length expired) > max_memory_entries s then
          (let sorted_entries =
                 sort_key snd (map (\<lambda>(k, v). (k, last_accessed v))
                   (filter (\<lambda>(k, v). k \<notin> set expired) cache));
               excess_count = int (length cache) - int (length expired) - max_memory_entries s
           in expired @ map fst (take (nat excess_count) sorted_entries))
        else expired)"

definition cleanup_memory_cache :: "real \<Rightarrow> 'v CacheService \<Rightarrow> 'v CacheService" where
  "cleanup_memory_cache current_time s =
    s\<lparr>memory_cache := fold AList.delete (keys_to_delete current_time s) (memory_cache s)\<rparr>"

text \<open>
  \<^verbatim>\<open>set\<close>. \<open>current_time\<close> is the clock reading of \<^verbatim>\<open>set\<close> itself, \<open>cleanup_time\<close> the
  one \<^verbatim>\<open>_cleanup_memory_cache\<close> takes afterwards. \<open>dumps\<close> is \<^verbatim>\<open>json.dumps\<close> (\<open>None\<close> when
  it raises) and \<open>db_ok\<close> tells whether the SQLite statements run without raising; every
  exception of the persistent write is caught and logged by the source, the database left
  as it was. \<^verbatim>\<open>INSERT OR REPLACE\<close> names no \<^verbatim>\<open>access_count\<close>, so the column takes its
  default 0. The source has no \<^verbatim>\<open>raise\<close> and returns \<^verbatim>\<open>None\<close>: the model returns the
  new state.
\<close>

definition cache_set ::
  "('v \<Rightarrow> string option) \<Rightarrow> bool \<Rightarrow> real \<Rightarrow> real \<Rightarrow> string \<Rightarrow> 'v \<Rightarrow> int \<Rightarrow> bool
    \<Rightarrow> 'v CacheService \<Rightarrow> 'v CacheService" where
  "cache_set dumps db_ok current_time cleanup_time k v t persist s =
    (let s1 = s\<lparr>memory_cache :=
                 AList.update k
                   \<lparr>key = k, val = v, ttl = t, created_at = current_time,
                    access_count = 0, last_accessed = current_time\<rparr>
                   (memory_cache s)\<rparr>;
         s2 = cleanup_memory_cache cleanup_time s1
     in if persist then
          (case (if db_ok then dumps v else None) of
             None \<Rightarrow> s2
           | Some text_value \<Rightarrow>
               s2\<lparr>db := AList.update k
                   \<lparr>row_value = text_value, row_ttl = t, row_created_at = current_time,
                    row_access_count = 0, row_last_accessed = current_time\<rparr>
                   (db s2)\<rparr>)
        else s2)"

text \<open>
  \<^verbatim>\<open>get\<close>, first part (the lookup in the memory tier): a live entry is returned and its
  access data updated; an expired one is deleted (\<^verbatim>\<open>del self._memory_cache[key]\<close>) and
  the lookup goes on to the database. \<open>Some v\<close> is the \<^verbatim>\<open>return entry.value\<close>.
\<close>

definition get_memory_tier ::
  "real \<Rightarrow> string \<Rightarrow> (string \<times> 'v CacheEntry) list
    \<Rightarrow> 'v option \<times> (string \<times> 'v CacheEntry) list" where
  "get_memory_tier current_time k cache =
    (case map_of cache k of
       None \<Rightarrow> (None, cache)
     | Some entry \<Rightarrow>
         if current_time - created_at entry < of_int (ttl entry) then
           (Some (val entry),
            AList.update k
              (entry\<lparr>access_count := access_count entry + 1, last_accessed := current_time\<rparr>)
              cache)
         else (None, AList.delete k cache))"

text \<open>
  \<^verbatim>\<open>get\<close>, second part (the lookup in the database). \<open>loads\<close> is \<^verbatim>\<open>json.loads\<close> (\<open>None\<close>
  when it raises). A live row is parsed, its access data updated and a fresh entry with the
  row's \<^verbatim>\<open>ttl\<close> and \<^verbatim>\<open>created_at\<close> stored in the memory tier; an expired row is deleted.
  Any exception (\<open>db_ok\<close> false, or \<^verbatim>\<open>json.loads\<close> raising before anything is written)
  is caught: the result is \<^verbatim>\<open>None\<close> and nothing changes.
\<close>

definition get_persistent_tier ::
  "(string \<Rightarrow> 'v option) \<Rightarrow> bool \<Rightarrow> real \<Rightarrow> string \<Rightarrow> 'v CacheService
    \<Rightarrow> 'v option \<times> 'v CacheService" where
  "get_persistent_tier loads db_ok current_time k s =
    (if \<not> db_ok then (None, s)
     else
       (case map_of (db s) k of
          None \<Rightarrow> (None, s)
        | Some row \<Rightarrow>
            if current_time - row_created_at row < of_int (row_ttl row) then
              (case loads (row_value row) of
                 None \<Rightarrow> (None, s)
               | Some parsed_value \<Rightarrow>
                   (Some parsed_value,
                    s\<lparr>db := AList.update k
                         (row\<lparr>row_access_count := row_access_count row + 1,
                              row_last_accessed := current_time\<rparr>)
                         (db s),
                      memory_cache := AList.update k
                         \<lparr>key = k, val = parsed_value, ttl = row_ttl row,
                          created_at = row_created_at row, access_count = 0,
                          last_accessed = current_time\<rparr>
                         (memory_cache s)\<rparr>))
            else (None, s\<lparr>db := AList.delete k (db s)\<rparr>)))"

definition cache_get ::
  "(string \<Rightarrow> 'v option) \<Rightarrow> bool \<Rightarrow> real \<Rightarrow> string \<Rightarrow> 'v CacheService
    \<Rightarrow> 'v option \<times> 'v CacheService" where
  "cache_get loads db_ok current_time k s =
    (case get_memory_tier current_time k (memory_cache s) of
       (Some v, cache) \<Rightarrow> (Some v, s\<lparr>memory_cache := cache\<rparr>)
     | (None, cache) \<Rightarrow> get_persistent_tier loads db_ok current_time k (s\<lparr>memory_cache := cache\<rparr>))"

text \<open>
  \<^verbatim>\<open>get_stats\<close>. \<open>str_len v\<close> is \<^verbatim>\<open>len(str(v))\<close>. The persistent statistics are the
  empty dictionary (\<open>None\<close>) when the query raises; \<^verbatim>\<open>SUM\<close> and \<^verbatim>\<open>AVG\<close> over no row are
  \<^verbatim>\<open>NULL\<close>, which \<^verbatim>\<open>or 0\<close> turns into 0.
\<close>

record PersistentStats =
  entries :: nat
  total_accesses :: int
  avg_last_accessed :: real

record CacheStats =
  memory_entries :: nat
  size_bytes :: nat
  max_entries :: int
  persistent_cache :: "PersistentStats option"

definition get_stats :: "('v \<Rightarrow> nat) \<Rightarrow> bool \<Rightarrow> 'v CacheService \<Rightarrow> CacheStats" where
  "get_stats str_len db_ok s =
    \<lparr>memory_entries = length (memory_cache s),
     size_bytes = sum_list (map (\<lambda>(k, entry). str_len (val entry)) (memory_cache s)),
     max_entries = max_memory_entries s,
     persistent_cache =
       (if db_ok then
          Some \<lparr>entries = length (db s),
                total_accesses = sum_list (map (\<lambda>(k, row). row_access_count row) (db s)),
                avg_last_accessed =
                  (if db s = [] then 0
                   else sum_list (map (\<lambda>(k, row). row_last_accessed row) (db s))
                          / real (length (db s)))\<rparr>
        else None)\<rparr>"

text \<open>
  Notions the statements about the sweep use: the entries that pass the liveness check, and
  the keys the sweep picks among them (the first \<open>n\<close> of the stable sort by
  \<^verbatim>\<open>last_accessed\<close>, as in \<open>keys_to_delete\<close>); a row of the database is live under the
  same test as an entry.
\<close>

definition live_entries :: "real \<Rightarrow> (string \<times> 'v CacheEntry) list \<Rightarrow> (string \<times> 'v CacheEntry) list" where
  "live_entries current_time cache = filter (\<lambda>(k, entry). \<not> is_expired current_time entry) cache"

definition lru_keys :: "nat \<Rightarrow> (string \<times> 'v CacheEntry) list \<Rightarrow> string list" where
  "lru_keys n cache = map fst (take n (sort_key snd (map (\<lambda>(k, v). (k, last_accessed v)) cache)))"

definition persistent_live :: "real \<Rightarrow> string \<Rightarrow> 'v CacheService \<Rightarrow> bool" where
  "persistent_live current_time k s =
     (case map_of (db s) k of
        None \<Rightarrow> False
      | Some row \<Rightarrow> current_time - row_created_at row < of_int (row_ttl row))"


section \<open>The memory retriever (memory/memory_manager.py)\<close>

subsection \<open>Python strings\<close>

text \<open>
  A Python string is a sequence of Unicode code points. \<^verbatim>\<open>str.lower\<close> and
  \<^verbatim>\<open>str.split()\<close> belong to the runtime and follow the Unicode tables: every function
  below that calls them takes them as the parameters \<open>lower\<close> and \<open>split\<close>, so that what
  is proved of it holds for whatever the two compute, on text of any script. The functions
  that only count and compare work on lists over any type of characters:
  \<open>str_count s sub\<close> is \<^verbatim>\<open>s.count(sub)\<close> (occurrences that do not overlap, found from the
  left) and \<open>str_contains s sub\<close> is \<^verbatim>\<open>sub in s\<close>. \<open>str_int\<close> is \<^verbatim>\<open>str\<close> of an
  integer, as an f-string formats it.

  For the examples a \<open>char\<close> is a code point below 256, and \<open>str_lower\<close> and
  \<open>str_split\<close> are \<^verbatim>\<open>str.lower\<close> and \<^verbatim>\<open>str.split()\<close> on strings of such code points:
  the cased letters are A to Z and U+00C0 to U+00DE without the multiplication sign U+00D7,
  each 32 below its lowercase letter; white space is U+0009 to U+000D, U+001C to U+0020,
  U+0085 and U+00A0; \<^verbatim>\<open>split()\<close> returns the words between runs of white space, none of
  them empty.
\<close>

definition lower_char :: "char \<Rightarrow> char" where
  "lower_char c =
    (let n = (of_char c :: nat)
     in if (65 \<le> n \<and> n \<le> 90) \<or> (192 \<le> n \<and> n \<le> 222 \<and> n \<noteq> 215) then char_of (n + 32)
        else c)"

definition str_lower :: "string \<Rightarrow> string" where
  "str_lower s = map lower_char s"

definition is_space :: "char \<Rightarrow> bool" where
  "is_space c =
    (let n = (of_char c :: nat)
     in (9 \<le> n \<and> n \<le> 13) \<or> (28 \<le> n \<and> n \<le> 32) \<or> n = 133 \<or> n = 160)"

fun split_words :: "string \<Rightarrow> string \<Rightarrow> string list" where
  "split_words w [] = (if w = [] then [] else [w])"
| "split_words w (c # cs) =
    (if is_space c then (if w = [] then split_words [] cs else w # split_words [] cs)
     else split_words (w @ [c]) cs)"

definition str_split :: "string \<Rightarrow> string list" where
  "str_split s = split_words [] s"

function str_count :: "'c list \<Rightarrow> 'c list \<Rightarrow> nat" where
  "str_count s sub =
    (if sub = [] then length s + 1
     else if length s < length sub then 0
     else if take (length sub) s = sub then 1 + str_count (drop (length sub) s) sub
     else str_count (tl s) sub)"
  by pat_completeness auto
termination
  by (relation "measure (\<lambda>(s, sub). length s)") (auto simp: not_less intro!: diff_less)

declare str_count.simps [simp del]

fun str_contains :: "'c list \<Rightarrow> 'c list \<Rightarrow> bool" where
  "str_contains [] sub = (sub = [])"
| "str_contains (c # cs) sub = (take (length sub) (c # cs) = sub \<or> str_contains cs sub)"

function str_nat :: "nat \<Rightarrow> string" where
  "str_nat n =
    (if n < 10 then [char_of (48 + n)] else str_nat (n div 10) @ [char_of (48 + n mod 10)])"
  by pat_completeness auto
termination
  by (relation "measure (\<lambda>n. n)") auto

declare str_nat.simps [simp del]

definition str_int :: "int \<Rightarrow> string" where
  "str_int i = (if i < 0 then CHR ''-'' # str_nat (nat (- i)) else str_nat (nat i))"

text \<open>
  A slice \<^verbatim>\<open>xs[:n]\<close>: the first \<open>n\<close> elements, and for a negative \<open>n\<close> all but the last
  \<open>-n\<close>.
\<close>

definition slice_to :: "int \<Rightarrow> 'a list \<Rightarrow> 'a list" where
  "slice_to n xs = (if 0 \<le> n then take (nat n) xs else take (nat (int (length xs) + n)) xs)"

subsection \<open>Ranking\<close>

text \<open>
  \<^verbatim>\<open>_rank_memories_by_relevance\<close>. \<^verbatim>\<open>query_words\<close> is a Python set: the list of the words
  without repetitions stands for it (the score is a sum, so the order of iteration does not
  matter). \<^verbatim>\<open>sort(key=..., reverse=True)\<close> is stable and descending: it is the stable sort
  by the negated score. The result keeps the memories with a positive score.
\<close>

definition relevance_score :: "('c list \<Rightarrow> 'c list) \<Rightarrow> 'c list list \<Rightarrow> 'c list \<Rightarrow> nat" where
  "relevance_score lower query_words memory =
    sum_list (map (\<lambda>word. if length word > 2
                            then str_count (lower memory) word * length word else 0)
                  query_words)"

definition rank_memories_by_relevance ::
  "('c list \<Rightarrow> 'c list) \<Rightarrow> ('c list \<Rightarrow> 'c list list) \<Rightarrow> 'c list list \<Rightarrow> 'c list
    \<Rightarrow> 'c list list" where
  "rank_memories_by_relevance lower split memories query =
    (let query_words = remdups (split (lower query));
         scored_memories =
           map (\<lambda>memory. (memory, relevance_score lower query_words memory)) memories;
         sorted_memories = sort_key (\<lambda>(memory, score). - int score) scored_memories
     in map fst (filter (\<lambda>(memory, score). score > 0) sorted_memories))"

subsection \<open>The chat history and the manager\<close>

text \<open>
  A message is a dictionary read with \<^verbatim>\<open>msg.get('role', 'unknown')\<close> and
  \<^verbatim>\<open>msg.get('content', '')\<close>: a field is \<open>None\<close> when the key is missing. The state of the
  \<^verbatim>\<open>ChatHistoryManager\<close> the manager reads is the current session and the session files of
  the history directory, listed as \<^verbatim>\<open>sorted(glob, reverse=True)\<close> lists them, each with the
  messages \<^verbatim>\<open>load_history_file\<close> returns for it (\<open>None\<close> when loading raises, which the
  source turns into the empty list). \<open>adapter_calls\<close> counts the calls of
  \<^verbatim>\<open>get_session_messages\<close>, \<^verbatim>\<open>get_history_files\<close> and \<^verbatim>\<open>load_history_file\<close>.
  \<open>mm_cache\<close> is the dictionary \<^verbatim>\<open>self.memory_cache\<close> of the manager, from the cache key to
  the cached list and its timestamp.
\<close>

record Message =
  role :: "string option"
  content :: "string option"

record MemoryManager =
  current_session :: "Message list"
  history_files :: "(string \<times> Message list option) list"
  adapter_calls :: nat
  mm_cache :: "(string \<times> (string list \<times> real)) list"

definition cache_expiry :: real where
  "cache_expiry = 3600"

definition init_manager :: "Message list \<Rightarrow> (string \<times> Message list option) list \<Rightarrow> MemoryManager" where
  "init_manager session files =
    \<lparr>current_session = session, history_files = files, adapter_calls = 0, mm_cache = []\<rparr>"

text \<open>\<^verbatim>\<open>get_session_messages(limit)\<close>: the last \<open>limit\<close> messages for a positive limit.\<close>

definition get_session_messages :: "int \<Rightarrow> MemoryManager \<Rightarrow> Message list" where
  "get_session_messages limit st =
    (if limit > 0 then drop (length (current_session st) - nat limit) (current_session st)
     else current_session st)"

text \<open>
  \<^verbatim>\<open>get_history_files(limit)\<close>: the loop appends a path and stops once \<open>limit\<close> paths are
  collected, so one path is returned even for a limit below 1.
\<close>

definition get_history_files ::
  "int \<Rightarrow> MemoryManager \<Rightarrow> (string \<times> Message list option) list" where
  "get_history_files limit st = take (max 1 (nat limit)) (history_files st)"

definition load_history_file :: "(string \<times> Message list option) \<Rightarrow> Message list" where
  "load_history_file file = (case snd file of None \<Rightarrow> [] | Some messages \<Rightarrow> messages)"

text \<open>
  The test of both extraction loops,
  \<^verbatim>\<open>any(word in content for word in query_lower.split() if len(word) > 2)\<close>, and the
  string that is collected for a message.
\<close>

definition message_content :: "Message \<Rightarrow> string" where
  "message_content msg = (case content msg of None \<Rightarrow> [] | Some c \<Rightarrow> c)"

definition message_matches ::
  "(string \<Rightarrow> string) \<Rightarrow> (string \<Rightarrow> string list) \<Rightarrow> string \<Rightarrow> Message \<Rightarrow> bool" where
  "message_matches lower split query msg =
    list_ex (\<lambda>word. str_contains (lower (message_content msg)) word)
      (filter (\<lambda>word. length word > 2) (split (lower query)))"

definition format_memory :: "Message \<Rightarrow> string" where
  "format_memory msg =
    ''['' @ (case role msg of None \<Rightarrow> ''unknown'' | Some r \<Rightarrow> r) @ ''] '' @ message_content msg"

definition extract_current_session_memories ::
  "(string \<Rightarrow> string) \<Rightarrow> (string \<Rightarrow> string list) \<Rightarrow> string \<Rightarrow> int \<Rightarrow> MemoryManager
    \<Rightarrow> string list \<times> MemoryManager" where
  "extract_current_session_memories lower split query limit st =
    (let messages = get_session_messages 50 st;
         memories = map format_memory (filter (message_matches lower split query) messages)
     in (slice_to limit memories, st\<lparr>adapter_calls := adapter_calls st + 1\<rparr>))"

text \<open>
  \<^verbatim>\<open>_extract_historical_memories\<close>. The inner loop leaves a file at the first append that
  brings the list to \<open>limit\<close> elements; the outer loop tests the length after every file,
  whether the file added anything or not.
\<close>

fun scan_messages ::
  "(string \<Rightarrow> string) \<Rightarrow> (string \<Rightarrow> string list) \<Rightarrow> string \<Rightarrow> int \<Rightarrow> Message list
    \<Rightarrow> string list \<Rightarrow> string list" where
  "scan_messages lower split query limit [] memories = memories"
| "scan_messages lower split query limit (msg # msgs) memories =
    (if message_matches lower split query msg then
       (let memories2 = memories @ [format_memory msg]
        in if int (length memories2) \<ge> limit then memories2
           else scan_messages lower split query limit msgs memories2)
     else scan_messages lower split query limit msgs memories)"

fun scan_files ::
  "(string \<Rightarrow> string) \<Rightarrow> (string \<Rightarrow> string list) \<Rightarrow> string \<Rightarrow> int
    \<Rightarrow> (string \<times> Message list option) list \<Rightarrow> string list \<Rightarrow> nat
    \<Rightarrow> string list \<times> nat" where
  "scan_files lower split query limit [] memories calls = (memories, calls)"
| "scan_files lower split query limit (file # files) memories calls =
    (let memories2 = scan_messages lower split query limit (load_history_file file) memories
     in if int (length memories2) \<ge> limit then (memories2, calls + 1)
        else scan_files lower split query limit files memories2 (calls + 1))"

definition extract_historical_memories ::
  "(string \<Rightarrow> string) \<Rightarrow> (string \<Rightarrow> string list) \<Rightarrow> string \<Rightarrow> int \<Rightarrow> MemoryManager
    \<Rightarrow> string list \<times> MemoryManager" where
  "extract_historical_memories lower split query limit st =
    (let (memories, calls) =
           scan_files lower split query limit (get_history_files 10 st) []
             (adapter_calls st + 1)
     in (slice_to limit memories, st\<lparr>adapter_calls := calls\<rparr>))"

text \<open>
  \<^verbatim>\<open>get_relevant_memories\<close>. \<open>hash_str\<close> is Python's \<^verbatim>\<open>hash\<close> on strings. The clock is read
  for the test of a cached entry (\<open>check_time\<close>) and when the result is stored
  (\<open>store_time\<close>). The cache is the manager's own dictionary; the \<^verbatim>\<open>CacheService\<close> is not
  referred to anywhere in the class.
\<close>

definition cache_key :: "(string \<Rightarrow> int) \<Rightarrow> string \<Rightarrow> int \<Rightarrow> string" where
  "cache_key hash_str query limit =
    ''memories_'' @ str_int (hash_str query) @ ''_'' @ str_int limit"

definition get_relevant_memories ::
  "(string \<Rightarrow> string) \<Rightarrow> (string \<Rightarrow> string list) \<Rightarrow> (string \<Rightarrow> int) \<Rightarrow> real \<Rightarrow> real
    \<Rightarrow> string \<Rightarrow> int \<Rightarrow> MemoryManager \<Rightarrow> string list \<times> MemoryManager" where
  "get_relevant_memories lower split hash_str check_time store_time query limit st =
    (case (case map_of (mm_cache st) (cache_key hash_str query limit) of
             None \<Rightarrow> None
           | Some (memories, timestamp) \<Rightarrow>
               if check_time - timestamp < cache_expiry then Some memories else None) of
       Some memories \<Rightarrow> (memories, st)
     | None \<Rightarrow>
         (let (current_memories, st1) =
                extract_current_session_memories lower split query (limit div 2) st;
              (historical_memories, st2) =
                extract_historical_memories lower split query (limit div 2) st1;
              all_memories = current_memories @ historical_memories;
              relevant_memories =
                slice_to limit (rank_memories_by_relevance lower split all_memories query)
          in (relevant_memories,
              st2\<lparr>mm_cache := AList.update (cache_key hash_str query limit)
                                (relevant_memories, store_time) (mm_cache st2)\<rparr>)))"

text \<open>
  Notions of the statements: the timestamp cached under the key of a query and a limit,
  and the invariant that every list cached under the key of a limit 0 or 1 is empty (it
  holds of a new manager and every call of \<^verbatim>\<open>get_relevant_memories\<close> keeps it).
\<close>

definition cached_timestamp ::
  "(string \<Rightarrow> int) \<Rightarrow> string \<Rightarrow> int \<Rightarrow> MemoryManager \<Rightarrow> real option" where
  "cached_timestamp hash_str query limit st =
    map_option snd (map_of (mm_cache st) (cache_key hash_str query limit))"

definition small_limit_inv :: "(string \<Rightarrow> int) \<Rightarrow> MemoryManager \<Rightarrow> bool" where
  "small_limit_inv hash_str st \<longleftrightarrow>
    (\<forall>q l ms ts. 0 \<le> l \<and> l \<le> 1 \<and>
        map_of (mm_cache st) (cache_key hash_str q l) = Some (ms, ts) \<longrightarrow> ms = [])"

text \<open>
  The application object (web/app.py) holds one \<^verbatim>\<open>CacheService\<close> and one
  \<^verbatim>\<open>MemoryManager\<close>; the route \<^verbatim>\<open>/api/memory/relevant\<close> refuses an empty query and calls
  the manager otherwise.
\<close>

record 'v WebApp =
  cache_service :: "'v CacheService"
  memory_manager :: MemoryManager

definition api_relevant_memories ::
  "(string \<Rightarrow> string) \<Rightarrow> (string \<Rightarrow> string list) \<Rightarrow> (string \<Rightarrow> int) \<Rightarrow> real \<Rightarrow> real
    \<Rightarrow> string \<Rightarrow> int \<Rightarrow> 'v WebApp \<Rightarrow> (string + string list) \<times> 'v WebApp" where
  "api_relevant_memories lower split hash_str check_time store_time query limit app =
    (if query = [] then (Inl ''Query content cannot be empty'', app)
     else
       (let (memories, mm) =
              get_relevant_memories lower split hash_str check_time store_time query limit
                (memory_manager app)
        in (Inr memories, app\<lparr>memory_manager := mm\<rparr>)))"


section \<open>Key derivation (CacheService._generate_key)\<close>

text \<open>
  The payloads of \<^verbatim>\<open>_generate_key\<close> are JSON data: \<^verbatim>\<open>None\<close>, booleans, integers, strings,
  lists, and dictionaries with string keys (floating-point numbers are left out). A Python
  dictionary keeps its insertion order, so a dictionary is the list of its items in that
  order; its keys are distinct.
\<close>

datatype json =
    JNull
  | JBool bool
  | JInt int
  | JStr string
  | JList "json list"
  | JDict "(string \<times> json) list"

text \<open>
  \<^verbatim>\<open>json.dumps(data, sort_keys=True, ensure_ascii=False)\<close>, after the documentation of the
  standard library: the separators are \<^verbatim>\<open>", "\<close> and \<^verbatim>\<open>": "\<close>; in a string the quote, the
  backslash and the control characters are escaped and nothing else is; the items of a
  dictionary are written in the ascending order of their keys.
\<close>

definition hex_digit :: "nat \<Rightarrow> char" where
  "hex_digit d = (if d < 10 then char_of (48 + d) else char_of (87 + d))"

definition escape_char :: "char \<Rightarrow> string" where
  "escape_char c =
    (let n = (of_char c :: nat) in
     if n = 34 then [CHR 0x5C, CHR 0x22]
     else if n = 92 then [CHR 0x5C, CHR 0x5C]
     else if n = 8 then [CHR 0x5C, CHR ''b'']
     else if n = 12 then [CHR 0x5C, CHR ''f'']
     else if n = 10 then [CHR 0x5C, CHR ''n'']
     else if n = 13 then [CHR 0x5C, CHR ''r'']
     else if n = 9 then [CHR 0x5C, CHR ''t'']
     else if n < 32 then [CHR 0x5C, CHR ''u'', CHR ''0'', CHR ''0'', hex_digit (n div 16), hex_digit (n mod 16)]
     else [c])"

definition json_string :: "string \<Rightarrow> string" where
  "json_string s = CHR 0x22 # concat (map escape_char s) @ [CHR 0x22]"

fun str_join :: "string \<Rightarrow> string list \<Rightarrow> string" where
  "str_join sep [] = []"
| "str_join sep [x] = x"
| "str_join sep (x # y # ys) = x @ sep @ str_join sep (y # ys)"

fun json_dumps :: "json \<Rightarrow> string" where
  "json_dumps JNull = ''null''"
| "json_dumps (JBool b) = (if b then ''true'' else ''false'')"
| "json_dumps (JInt i) = str_int i"
| "json_dumps (JStr s) = json_string s"
| "json_dumps (JList xs) = ''['' @ str_join '', '' (map json_dumps xs) @ '']''"
| "json_dumps (JDict items) =
    ''{'' @ str_join '', ''
       (map (\<lambda>(k, text_value). json_string k @ '': '' @ text_value)
          (sort_key fst (map (\<lambda>(k, v). (k, json_dumps v)) items))) @ ''}''"

text \<open>
  \<^verbatim>\<open>_generate_key\<close>. \<open>md5_hexdigest s\<close> is \<^verbatim>\<open>hashlib.md5(s.encode()).hexdigest()\<close>, a function
  of the standard library that the key derivation takes as it is; \<open>key_prefix\<close> is the
  parameter \<^verbatim>\<open>prefix\<close>.
\<close>

definition generate_key :: "(string \<Rightarrow> string) \<Rightarrow> string \<Rightarrow> json \<Rightarrow> string" where
  "generate_key md5_hexdigest key_prefix data =
    key_prefix @ '':'' @ md5_hexdigest (json_dumps data)"

text \<open>
  The key of \<^verbatim>\<open>cache_llm_response\<close> and \<^verbatim>\<open>get_cached_llm_response\<close>: the prefix
  \<^verbatim>\<open>llm\<close> and the dictionary of the two strings, \<^verbatim>\<open>user_input\<close> inserted first.
\<close>

definition llm_cache_key :: "(string \<Rightarrow> string) \<Rightarrow> string \<Rightarrow> string \<Rightarrow> string" where
  "llm_cache_key md5_hexdigest user_input system_prompt =
    generate_key md5_hexdigest ''llm''
      (JDict [(''user_input'', JStr user_input), (''system_prompt'', JStr system_prompt)])"

text \<open>
  Equality of payloads as Python has it: two dictionaries are equal when they have the
  same keys with equal values, whatever the order of insertion, here a permutation of the
  items; lists are equal element by element.
\<close>

inductive json_equiv :: "json \<Rightarrow> json \<Rightarrow> bool" where
  equiv_null: "json_equiv JNull JNull"
| equiv_bool: "json_equiv (JBool b) (JBool b)"
| equiv_int: "json_equiv (JInt i) (JInt i)"
| equiv_str: "json_equiv (JStr s) (JStr s)"
| equiv_list: "list_all2 json_equiv xs ys \<Longrightarrow> json_equiv (JList xs) (JList ys)"
| equiv_dict:
    "distinct (map fst xs) \<Longrightarrow> mset zs = mset ys
      \<Longrightarrow> list_all2 (\<lambda>a b. fst a = fst b \<and> json_equiv (snd a) (snd b)) xs zs
      \<Longrightarrow> json_equiv (JDict xs) (JDict ys)"


section \<open>Properties of the cache\<close>

subsection \<open>Association lists and the sweep\<close>

lemma fold_delete_filter:
  "fold AList.delete ks al = filter (\<lambda>(k, v). k \<notin> set ks) al"
proof (induction ks arbitrary: al)
  case Nil
  then show ?case by simp
next
  case (Cons a ks)
  have "fold AList.delete (a # ks) al = filter (\<lambda>(k, v). k \<notin> set ks) (AList.delete a al)"
    by (simp add: Cons.IH)
  also have "\<dots> = filter (\<lambda>(k, v). k \<notin> set (a # ks)) al"
    by (auto simp: AList.delete_eq intro: filter_cong)
  finally show ?case .
qed

lemma distinct_keys_entry:
  "distinct (map fst al) \<Longrightarrow> (k, v) \<in> set al \<Longrightarrow> (k, w) \<in> set al \<Longrightarrow> v = w"
  by (meson eq_key_imp_eq_value)

lemma filter_not_selected_keys:
  assumes "distinct (map fst al)"
  shows "filter (\<lambda>(k, v). k \<notin> set (map fst (filter (\<lambda>(k, v). P v) al))) al
          = filter (\<lambda>(k, v). \<not> P v) al"
proof (rule filter_cong[OF refl])
  fix x assume x: "x \<in> set al"
  obtain k v where kv: "x = (k, v)" by (cases x)
  have "k \<in> set (map fst (filter (\<lambda>(k, v). P v) al)) \<longleftrightarrow> P v"
  proof
    assume "k \<in> set (map fst (filter (\<lambda>(k, v). P v) al))"
    then obtain w where "(k, w) \<in> set al" "P w" by auto
    with assms x kv show "P v" using distinct_keys_entry by fastforce
  next
    assume "P v"
    with x kv show "k \<in> set (map fst (filter (\<lambda>(k, v). P v) al))" by force
  qed
  then show "(case x of (k, v) \<Rightarrow> k \<notin> set (map fst (filter (\<lambda>(k, v). P v) al)))
             = (case x of (k, v) \<Rightarrow> \<not> P v)"
    by (simp add: kv)
qed

lemma length_live_entries:
  "int (length cache) - int (length (map fst (filter (\<lambda>(k, entry). is_expired now entry) cache)))
    = int (length (live_entries now cache))"
proof -
  have "length (filter (\<lambda>(k, entry). is_expired now entry) cache)
        + length (filter (\<lambda>x. \<not> (case x of (k, entry) \<Rightarrow> is_expired now entry)) cache) = length cache"
    by (rule sum_length_filter_compl)
  moreover have "filter (\<lambda>x. \<not> (case x of (k, entry) \<Rightarrow> is_expired now entry)) cache = live_entries now cache"
    by (simp add: live_entries_def case_prod_unfold)
  ultimately show ?thesis by simp
qed

lemma cleanup_memory_cache_eq:
  assumes "distinct (map fst (memory_cache s))"
  shows "memory_cache (cleanup_memory_cache now s) =
    (let live = live_entries now (memory_cache s) in
     if int (length live) > max_memory_entries s
     then filter (\<lambda>(k, v). k \<notin> set (lru_keys (nat (int (length live) - max_memory_entries s)) live)) live
     else live)"
proof -
  let ?cache = "memory_cache s"
  let ?ktd = "map fst (filter (\<lambda>(k, entry). is_expired now entry) ?cache)"
  have live: "filter (\<lambda>(k, v). k \<notin> set ?ktd) ?cache = live_entries now ?cache"
    unfolding live_entries_def using filter_not_selected_keys[OF assms, of "is_expired now"] .
  have split: "filter (\<lambda>(k, v). k \<notin> set (?ktd @ ks)) ?cache
        = filter (\<lambda>(k, v). k \<notin> set ks) (live_entries now ?cache)" for ks
  proof -
    have "filter (\<lambda>(k, v). k \<notin> set (?ktd @ ks)) ?cache
        = filter (\<lambda>(k, v). k \<notin> set ks) (filter (\<lambda>(k, v). k \<notin> set ?ktd) ?cache)"
      by (auto intro: filter_cong)
    then show ?thesis by (simp only: live)
  qed
  let ?live = "live_entries now ?cache"
  show ?thesis
  proof (cases "int (length ?live) > max_memory_entries s")
    case True
    then have "memory_cache (cleanup_memory_cache now s)
        = filter (\<lambda>(k, v). k \<notin> set (?ktd @ lru_keys (nat (int (length ?live) - max_memory_entries s)) ?live)) ?cache"
      unfolding cleanup_memory_cache_def keys_to_delete_def Let_def
      by (simp only: length_live_entries live lru_keys_def fold_delete_filter if_True) simp
    with True show ?thesis by (simp only: split Let_def if_True)
  next
    case False
    then have "memory_cache (cleanup_memory_cache now s) = filter (\<lambda>(k, v). k \<notin> set ?ktd) ?cache"
      unfolding cleanup_memory_cache_def keys_to_delete_def Let_def
      by (simp only: length_live_entries fold_delete_filter if_False) simp
    with False show ?thesis by (simp only: live Let_def if_False)
  qed
qed

lemma length_filter_keys:
  assumes "distinct (map fst al)" "distinct ks" "set ks \<subseteq> fst ` set al"
  shows "length (filter (\<lambda>(k, v). k \<notin> set ks) al) = length al - length ks"
proof -
  have "length (filter (\<lambda>(k, v). k \<notin> set ks) al) = length (filter (\<lambda>k. k \<notin> set ks) (map fst al))"
    by (simp add: filter_map comp_def case_prod_unfold)
  also have "\<dots> = card ({k. k \<notin> set ks} \<inter> set (map fst al))"
    using assms(1) by (rule distinct_length_filter)
  also have "{k. k \<notin> set ks} \<inter> set (map fst al) = set (map fst al) - set ks"
    by auto
  also have "card (set (map fst al) - set ks) = card (set (map fst al)) - card (set ks)"
    using assms(3) by (intro card_Diff_subset) auto
  also have "\<dots> = length al - length ks"
    using distinct_card[OF assms(1)] distinct_card[OF assms(2)] by simp
  finally show ?thesis .
qed

lemma sorted_take_drop_le:
  assumes "sorted (map f xs)" "a \<in> set (take n xs)" "b \<in> set (drop n xs)"
  shows "f a \<le> f b"
proof -
  have "sorted (map f (take n xs) @ map f (drop n xs))"
    using assms(1) by (simp flip: map_append)
  then show ?thesis
    using assms(2,3) by (auto simp: sorted_append)
qed

lemma keys_sorted_entries:
  "map fst (map (\<lambda>(k, v). (k, last_accessed v)) al) = map fst al"
  by (simp add: comp_def case_prod_unfold)

lemma distinct_sorted_entries:
  assumes "distinct (map fst al)"
  shows "distinct (map fst (sort_key snd (map (\<lambda>(k, v). (k, last_accessed v)) al)))"
proof -
  have "mset (map fst (sort_key snd (map (\<lambda>(k, v). (k, last_accessed v)) al))) = mset (map fst al)"
    by (simp add: multiset.map_comp comp_def case_prod_unfold)
  from mset_eq_imp_distinct_iff[OF this] assms show ?thesis by simp
qed

lemma lru_keys_distinct:
  "distinct (map fst al) \<Longrightarrow> distinct (lru_keys n al)"
  unfolding lru_keys_def take_map[symmetric]
  by (rule distinct_take) (rule distinct_sorted_entries)

lemma lru_keys_subset: "set (lru_keys n al) \<subseteq> fst ` set al"
proof -
  let ?S = "sort_key snd (map (\<lambda>(k, v). (k, last_accessed v)) al)"
  have "set (lru_keys n al) = fst ` set (take n ?S)"
    unfolding lru_keys_def by (rule set_map)
  also have "\<dots> \<subseteq> fst ` set ?S"
    by (rule image_mono) (rule set_take_subset)
  also have "fst ` set ?S = set (map fst ?S)" by simp
  also have "\<dots> = set (map fst al)"
    by (simp add: image_image case_prod_unfold)
  finally show ?thesis by simp
qed

lemma length_lru_keys: "length (lru_keys n al) = min (length al) n"
  by (simp add: lru_keys_def)

lemma lru_keys_order:
  assumes d: "distinct (map fst al)"
    and r: "r \<in> set al" "fst r \<in> set (lru_keys n al)"
    and x: "x \<in> set al" "fst x \<notin> set (lru_keys n al)"
  shows "last_accessed (snd r) \<le> last_accessed (snd x)"
proof -
  let ?pr = "\<lambda>(k, v). (k, last_accessed v)"
  let ?S = "sort_key snd (map ?pr al)"
  from r(2) obtain a where a: "(fst r, a) \<in> set (take n ?S)"
    unfolding lru_keys_def by force
  from in_set_takeD[OF this] have "(fst r, a) \<in> set (map ?pr al)"
    by simp
  then obtain v where v: "(fst r, v) \<in> set al" "a = last_accessed v" by auto
  have "(fst r, snd r) \<in> set al" using r(1) by simp
  from distinct_keys_entry[OF d v(1) this] have "v = snd r" .
  with a v have ra: "(fst r, last_accessed (snd r)) \<in> set (take n ?S)" by simp
  have "?pr x \<in> set ?S" using x(1) by simp
  then have "?pr x \<in> set (take n ?S) \<union> set (drop n ?S)"
    by (simp flip: set_append)
  moreover have "?pr x \<notin> set (take n ?S)"
  proof
    assume "?pr x \<in> set (take n ?S)"
    then have "fst (?pr x) \<in> set (lru_keys n al)"
      unfolding lru_keys_def set_map by (rule imageI)
    with x(2) show False by (simp add: case_prod_unfold)
  qed
  ultimately have xd: "?pr x \<in> set (drop n ?S)" by blast
  have "sorted (map snd ?S)" by (rule sorted_sort_key)
  from sorted_take_drop_le[OF this ra xd] show ?thesis
    by (simp add: case_prod_unfold)
qed

lemma distinct_live_entries:
  "distinct (map fst al) \<Longrightarrow> distinct (map fst (live_entries now al))"
  unfolding live_entries_def by (rule distinct_map_filter)

lemma cleanup_max [simp]:
  "max_memory_entries (cleanup_memory_cache now s) = max_memory_entries s"
  by (simp add: cleanup_memory_cache_def)

lemma cleanup_db [simp]: "db (cleanup_memory_cache now s) = db s"
  by (simp add: cleanup_memory_cache_def)

lemma cache_set_max [simp]:
  "max_memory_entries (cache_set dumps db_ok now now2 k v t persist s) = max_memory_entries s"
  by (simp add: cache_set_def Let_def split: option.split)

lemma cache_set_memory:
  "memory_cache (cache_set dumps db_ok now now2 k v t persist s) =
     memory_cache (cleanup_memory_cache now2
       (s\<lparr>memory_cache := AList.update k
           \<lparr>key = k, val = v, ttl = t, created_at = now, access_count = 0, last_accessed = now\<rparr>
           (memory_cache s)\<rparr>))"
  by (simp add: cache_set_def Let_def split: option.split)

lemma cleanup_capacity:
  fixes now :: real and s :: "'v CacheService"
  assumes d: "distinct (map fst (memory_cache s))" and m: "0 \<le> max_memory_entries s"
  defines "live \<equiv> live_entries now (memory_cache s)"
  defines "result \<equiv> memory_cache (cleanup_memory_cache now s)"
  shows "distinct (map fst result)"
    and "int (length result) \<le> max_memory_entries s"
    and "result = filter (\<lambda>e. e \<in> set result) live"
    and "int (length live) \<le> max_memory_entries s \<Longrightarrow> result = live"
    and "max_memory_entries s < int (length live) \<Longrightarrow> int (length result) = max_memory_entries s"
    and "max_memory_entries s < int (length live) \<Longrightarrow> r \<in> set live \<Longrightarrow> r \<notin> set result
          \<Longrightarrow> x \<in> set result \<Longrightarrow> last_accessed (snd r) \<le> last_accessed (snd x)"
proof -
  let ?n = "nat (int (length live) - max_memory_entries s)"
  let ?P = "\<lambda>(k, v). k \<notin> set (lru_keys ?n live)"
  have dl: "distinct (map fst live)"
    unfolding live_def using d by (rule distinct_live_entries)
  have eq: "result = (if max_memory_entries s < int (length live) then filter ?P live else live)"
    unfolding result_def live_def using cleanup_memory_cache_eq[OF d, of now] by (simp add: Let_def)
  show "distinct (map fst result)"
    using dl by (simp add: eq distinct_map_filter)
  have len: "length (filter ?P live) = length live - length (lru_keys ?n live)"
    by (rule length_filter_keys[OF dl lru_keys_distinct[OF dl] lru_keys_subset])
  have big: "int (length result) = max_memory_entries s" if "max_memory_entries s < int (length live)"
    using that m by (simp add: eq len length_lru_keys)
  show "max_memory_entries s < int (length live) \<Longrightarrow> int (length result) = max_memory_entries s"
    by (rule big)
  show "int (length result) \<le> max_memory_entries s"
    using big by (cases "max_memory_entries s < int (length live)") (simp_all add: eq)
  show "int (length live) \<le> max_memory_entries s \<Longrightarrow> result = live"
    by (simp add: eq)
  show "result = filter (\<lambda>e. e \<in> set result) live"
  proof (cases "max_memory_entries s < int (length live)")
    case True
    then have "result = filter ?P live" by (simp add: eq)
    moreover have "filter (\<lambda>e. e \<in> set (filter ?P live)) live = filter ?P live"
      by (rule filter_cong) auto
    ultimately show ?thesis by simp
  next
    case False
    then show ?thesis by (simp add: eq)
  qed
  show "last_accessed (snd r) \<le> last_accessed (snd x)"
    if "max_memory_entries s < int (length live)" "r \<in> set live" "r \<notin> set result" "x \<in> set result"
  proof -
    from that(1) have res: "result = filter ?P live" by (simp add: eq)
    from that(2,3) have "fst r \<in> set (lru_keys ?n live)"
      by (auto simp: res)
    moreover from that(4) have "x \<in> set live" "fst x \<notin> set (lru_keys ?n live)"
      by (auto simp: res)
    ultimately show ?thesis
      using lru_keys_order[OF dl that(2)] by blast
  qed
qed

lemma length_filter_mono:
  "(\<And>x. x \<in> set xs \<Longrightarrow> P x \<Longrightarrow> Q x) \<Longrightarrow> length (filter P xs) \<le> length (filter Q xs)"
  by (induction xs) auto

lemma filter_other_keys_update:
  "filter (\<lambda>(k', e). k' \<noteq> k \<and> R k' e) (AList.update k E al)
     = filter (\<lambda>(k', e). k' \<noteq> k \<and> R k' e) al"
  by (induction al) auto

lemma fresh_entry_retained:
  fixes s :: "'v CacheService"
  defines "E \<equiv> \<lambda>k v t now. \<lparr>key = k, val = v, ttl = t, created_at = now, access_count = 0, last_accessed = now\<rparr>"
  assumes inv: "cache_inv s"
    and fresh: "cleanup_time - now < of_int t"
    and cap: "int (length (filter (\<lambda>(k', e). k' \<noteq> k \<and> now \<le> last_accessed e) (memory_cache s)))
                < max_memory_entries s"
  shows "map_of (memory_cache (cache_set dumps db_ok now cleanup_time k v t persist s)) k
           = Some (E k v t now)"
proof -
  let ?E = "E k v t now"
  let ?ins = "AList.update k ?E (memory_cache s)"
  let ?s1 = "s\<lparr>memory_cache := ?ins\<rparr>"
  let ?live = "live_entries cleanup_time ?ins"
  let ?result = "memory_cache (cleanup_memory_cache cleanup_time ?s1)"
  let ?n = "nat (int (length ?live) - max_memory_entries s)"
  let ?P = "\<lambda>(k, v). k \<notin> set (lru_keys ?n ?live)"
  let ?Q = "\<lambda>(k', e). k' \<noteq> k \<and> now \<le> last_accessed e"
  have d: "distinct (map fst ?ins)"
    using inv by (simp add: cache_inv_def distinct_update)
  have dl: "distinct (map fst ?live)"
    using d by (rule distinct_live_entries)
  have m: "0 \<le> max_memory_entries s"
    using inv by (simp add: cache_inv_def)
  have "map_of ?ins k = Some ?E"
    by (simp add: update_conv')
  then have "(k, ?E) \<in> set ?ins"
    by (rule map_of_SomeD)
  moreover have "\<not> is_expired cleanup_time ?E"
    using fresh by (simp add: is_expired_def E_def)
  ultimately have inlive: "(k, ?E) \<in> set ?live"
    by (simp add: live_entries_def)
  have eq: "?result = (if max_memory_entries s < int (length ?live) then filter ?P ?live else ?live)"
    using cleanup_memory_cache_eq[of ?s1 cleanup_time] d by (simp add: Let_def)
  have "(k, ?E) \<in> set ?result"
  proof (cases "max_memory_entries s < int (length ?live)")
    case False
    with inlive show ?thesis by (simp add: eq)
  next
    case True
    have "k \<notin> set (lru_keys ?n ?live)"
    proof
      assume sel: "k \<in> set (lru_keys ?n ?live)"
      have "length (filter ?P ?live) = length ?live - length (lru_keys ?n ?live)"
        by (rule length_filter_keys[OF dl lru_keys_distinct[OF dl] lru_keys_subset])
      with True m have "int (length (filter ?P ?live)) = max_memory_entries s"
        by (simp add: length_lru_keys)
      moreover have "length (filter ?P ?live) \<le> length (filter ?Q ?live)"
      proof (rule length_filter_mono)
        fix x assume x: "x \<in> set ?live" "?P x"
        then have nx: "fst x \<notin> set (lru_keys ?n ?live)" by (simp add: case_prod_unfold)
        from lru_keys_order[OF dl inlive _ x(1) nx] sel
        have "now \<le> last_accessed (snd x)" by (simp add: E_def)
        moreover from nx sel have "fst x \<noteq> k" by auto
        ultimately show "?Q x" by (simp add: case_prod_unfold)
      qed
      moreover have "length (filter ?Q ?live) \<le> length (filter ?Q ?ins)"
        unfolding live_entries_def filter_filter
        by (rule length_filter_mono) simp
      moreover have "filter ?Q ?ins = filter ?Q (memory_cache s)"
        by (rule filter_other_keys_update)
      ultimately show False using cap by simp
    qed
    with inlive True show ?thesis by (simp add: eq)
  qed
  moreover have "distinct (map fst ?result)"
    using cleanup_capacity(1)[of ?s1 cleanup_time] d m by simp
  ultimately have "map_of ?result k = Some ?E"
    by (simp add: map_of_eq_Some_iff)
  then show ?thesis by (simp only: cache_set_memory E_def)
qed

lemma map_of_filter_keys:
  "map_of (filter (\<lambda>(k, v). P k) al) k = (if P k then map_of al k else None)"
  by (induction al) auto

lemma cleanup_memory_filter:
  "memory_cache (cleanup_memory_cache now s)
     = filter (\<lambda>(k, v). k \<notin> set (keys_to_delete now s)) (memory_cache s)"
  by (simp add: cleanup_memory_cache_def fold_delete_filter)

lemma expired_in_keys_to_delete:
  assumes "(k, e) \<in> set (memory_cache s)" "is_expired now e"
  shows "k \<in> set (keys_to_delete now s)"
proof -
  from assms have "k \<in> set (map fst (filter (\<lambda>(k, entry). is_expired now entry) (memory_cache s)))"
    by force
  then show ?thesis
    by (simp add: keys_to_delete_def Let_def)
qed

lemma cache_set_memory_lookup:
  "map_of (memory_cache (cache_set dumps db_ok now now2 k v t persist s)) k = None
   \<or> map_of (memory_cache (cache_set dumps db_ok now now2 k v t persist s)) k
       = Some \<lparr>key = k, val = v, ttl = t, created_at = now, access_count = 0, last_accessed = now\<rparr>"
proof -
  let ?s1 = "s\<lparr>memory_cache := AList.update k
                \<lparr>key = k, val = v, ttl = t, created_at = now, access_count = 0,
                 last_accessed = now\<rparr> (memory_cache s)\<rparr>"
  show ?thesis
    by (simp add: cache_set_memory cleanup_memory_filter map_of_filter_keys update_conv')
qed

lemma cache_set_db:
  "db (cache_set dumps db_ok now now2 k v t persist s) =
    (if persist \<and> db_ok then
       (case dumps v of
          None \<Rightarrow> db s
        | Some txt \<Rightarrow> AList.update k
            \<lparr>row_value = txt, row_ttl = t, row_created_at = now, row_access_count = 0,
             row_last_accessed = now\<rparr> (db s))
     else db s)"
  by (simp add: cache_set_def Let_def split: option.split)

lemma delete_eq_filter: "AList.delete k al = filter (\<lambda>(k', v). k' \<noteq> k) al"
  by (auto simp: AList.delete_eq intro: filter_cong)

lemma delete_absent: "map_of al k = None \<Longrightarrow> AList.delete k al = al"
  by (simp add: map_of_eq_None_iff)

lemma get_expired_memory:
  assumes "map_of cache k = None \<or> (\<exists>e. map_of cache k = Some e \<and> of_int (ttl e) \<le> now - created_at e)"
  shows "get_memory_tier now k cache = (None, AList.delete k cache)"
  using assms by (auto simp: get_memory_tier_def delete_absent)

lemma get_dead_row:
  assumes "\<not> persistent_live now k s"
  shows "get_persistent_tier loads True now k s = (None, s\<lparr>db := AList.delete k (db s)\<rparr>)"
  using assms
  by (auto simp: get_persistent_tier_def persistent_live_def delete_absent split: option.splits)

subsection \<open>The claims about the cache\<close>

text \<open>
  Claim C1 (capacity invariant). For a cache whose dictionary is well formed and whose
  capacity is not negative, take the memory tier right after \<^verbatim>\<open>set\<close> has written its entry
  (\<open>inserted\<close>) and the entries of it that pass the liveness check at the sweep's clock
  reading (\<open>live\<close>). After the call the memory tier holds at most
  \<^verbatim>\<open>max_memory_entries\<close> entries; it consists of live entries only, in their order; it is
  all of them when they fit; and when they do not fit it holds exactly
  \<^verbatim>\<open>max_memory_entries\<close> of them, every removed live entry having a \<^verbatim>\<open>last_accessed\<close> that
  is at most that of every entry kept. The invariant holds again afterwards.
\<close>

theorem set_capacity_enforcement:
  assumes "cache_inv s"
  shows "let inserted = AList.update k
                \<lparr>key = k, val = v, ttl = t, created_at = now, access_count = 0,
                 last_accessed = now\<rparr> (memory_cache s);
             live = live_entries cleanup_time inserted;
             s' = cache_set dumps db_ok now cleanup_time k v t persist s;
             result = memory_cache s'
         in cache_inv s'
          \<and> int (length result) \<le> max_memory_entries s
          \<and> result = filter (\<lambda>e. e \<in> set result) live
          \<and> (int (length live) \<le> max_memory_entries s \<longrightarrow> result = live)
          \<and> (max_memory_entries s < int (length live) \<longrightarrow>
                int (length result) = max_memory_entries s \<and>
                (\<forall>r \<in> set live - set result. \<forall>x \<in> set result.
                    last_accessed (snd r) \<le> last_accessed (snd x)))"
proof -
  let ?s1 = "s\<lparr>memory_cache := AList.update k
                \<lparr>key = k, val = v, ttl = t, created_at = now, access_count = 0,
                 last_accessed = now\<rparr> (memory_cache s)\<rparr>"
  have d: "distinct (map fst (memory_cache ?s1))"
    using assms by (simp add: cache_inv_def distinct_update)
  have m: "0 \<le> max_memory_entries ?s1"
    using assms by (simp add: cache_inv_def)
  note c = cleanup_capacity[OF d m, of cleanup_time]
  have mem: "memory_cache (cache_set dumps db_ok now cleanup_time k v t persist s)
      = memory_cache (cleanup_memory_cache cleanup_time ?s1)"
    by (rule cache_set_memory)
  have "cache_inv (cache_set dumps db_ok now cleanup_time k v t persist s)"
    using c(1) m by (simp add: cache_inv_def mem)
  then show ?thesis
    unfolding Let_def mem
    using c(2) c(3) c(4) c(5) c(6) by simp
qed

text \<open>The theorem at a concrete cache.\<close>

theorem set_capacity_enforcement_witness:
  "cache_inv
     \<lparr>memory_cache =
        [(''a'', \<lparr>key = ''a'', val = ''x'', ttl = 100, created_at = 0, access_count = 0, last_accessed = 1\<rparr>),
         (''b'', \<lparr>key = ''b'', val = ''y'', ttl = 100, created_at = 0, access_count = 2, last_accessed = 3\<rparr>),
         (''c'', \<lparr>key = ''c'', val = ''z'', ttl = 1, created_at = 0, access_count = 0, last_accessed = 5\<rparr>)],
      max_memory_entries = 2, db = []\<rparr>
   \<and> map fst (memory_cache (cache_set Some True 10 10 ''d'' ''v'' 100 False
       \<lparr>memory_cache =
          [(''a'', \<lparr>key = ''a'', val = ''x'', ttl = 100, created_at = 0, access_count = 0, last_accessed = 1\<rparr>),
           (''b'', \<lparr>key = ''b'', val = ''y'', ttl = 100, created_at = 0, access_count = 2, last_accessed = 3\<rparr>),
           (''c'', \<lparr>key = ''c'', val = ''z'', ttl = 1, created_at = 0, access_count = 0, last_accessed = 5\<rparr>)],
        max_memory_entries = 2, db = []\<rparr>)) = [''b'', ''d'']"
proof -
  let ?s = "\<lparr>memory_cache =
        [(''a'', \<lparr>key = ''a'', val = ''x'', ttl = 100, created_at = 0, access_count = 0, last_accessed = 1\<rparr>),
         (''b'', \<lparr>key = ''b'', val = ''y'', ttl = 100, created_at = 0, access_count = 2, last_accessed = 3\<rparr>),
         (''c'', \<lparr>key = ''c'', val = ''z'', ttl = 1, created_at = 0, access_count = 0, last_accessed = 5\<rparr>)],
      max_memory_entries = 2, db = []\<rparr>"
  have h: "cache_inv ?s" by (simp add: cache_inv_def)
  from set_capacity_enforcement[OF h, of "''d''" "''v''" 100 10 10 Some True False] h
  show ?thesis
    by (simp add: cache_set_def cleanup_memory_cache_def keys_to_delete_def is_expired_def
          live_entries_def Let_def)
qed

text \<open>
  Claim C2 (expiry), as amended. \<^verbatim>\<open>set\<close> with \<^verbatim>\<open>persist=False\<close> leaves the database alone, so
  an older row of the key that is still live answers the \<^verbatim>\<open>get\<close> after the new entry has
  expired (the example after the theorem). When the \<^verbatim>\<open>set\<close> itself wrote the row, or the
  database holds no row of the key that is live at the time of the \<^verbatim>\<open>get\<close>, then after at
  least \<^verbatim>\<open>ttl\<close> seconds \<^verbatim>\<open>get\<close> returns nothing, the key is in the memory tier no more
  and the entry count of \<^verbatim>\<open>get_stats\<close> is the number of the other entries; when the
  database can be reached by the \<^verbatim>\<open>get\<close> the same holds of the persistent tier.
\<close>

theorem expiry_without_live_row:
  fixes s :: "'v CacheService"
  assumes elapsed: "of_int t \<le> get_time - now"
    and row: "(persist \<and> db_ok \<and> dumps v \<noteq> None) \<or> \<not> persistent_live get_time k s"
  shows "let s1 = cache_set dumps db_ok now cleanup_time k v t persist s;
             s2 = snd (cache_get loads get_ok get_time k s1)
         in fst (cache_get loads get_ok get_time k s1) = None
          \<and> k \<notin> fst ` set (memory_cache s2)
          \<and> memory_entries (get_stats str_len stats_ok s2)
                = length (filter (\<lambda>(k', e). k' \<noteq> k) (memory_cache s1))
          \<and> (get_ok \<longrightarrow> k \<notin> fst ` set (db s2)
                \<and> (stats_ok \<longrightarrow> map_option entries (persistent_cache (get_stats str_len stats_ok s2))
                       = Some (length (filter (\<lambda>(k', r). k' \<noteq> k) (db s1)))))"
proof -
  let ?s1 = "cache_set dumps db_ok now cleanup_time k v t persist s"
  let ?m = "s\<lparr>memory_cache := AList.delete k (memory_cache ?s1)\<rparr>"
  have mem: "get_memory_tier get_time k (memory_cache ?s1) = (None, AList.delete k (memory_cache ?s1))"
    using cache_set_memory_lookup[of dumps db_ok now cleanup_time k v t persist s] elapsed
    by (intro get_expired_memory) auto
  have dead: "\<not> persistent_live get_time k ?s1"
    using row elapsed
    by (auto simp: persistent_live_def cache_set_db update_conv' split: option.splits)
  then have dead2: "\<not> persistent_live get_time k (?s1\<lparr>memory_cache := AList.delete k (memory_cache ?s1)\<rparr>)"
    by (simp add: persistent_live_def)
  have get: "cache_get loads get_ok get_time k ?s1 =
      (None, if get_ok then ?s1\<lparr>memory_cache := AList.delete k (memory_cache ?s1),
                                    db := AList.delete k (db ?s1)\<rparr>
             else ?s1\<lparr>memory_cache := AList.delete k (memory_cache ?s1)\<rparr>)"
  proof (cases get_ok)
    case True
    then show ?thesis
      using get_dead_row[OF dead2, of loads] by (simp add: cache_get_def mem)
  next
    case False
    then show ?thesis by (simp add: cache_get_def mem get_persistent_tier_def)
  qed
  show ?thesis
    unfolding Let_def get
    by (simp add: get_stats_def delete_notin_dom delete_eq_filter[symmetric])
qed

text \<open>The theorem at a concrete cache.\<close>

theorem expiry_without_live_row_witness:
  "fst (cache_get Some True 5 ''k''
         (cache_set Some True 0 0 ''k'' ''v'' 1 True (init_cache 1000))) = None
   \<and> ''k'' \<notin> fst ` set (db (snd (cache_get Some True 5 ''k''
         (cache_set Some True 0 0 ''k'' ''v'' 1 True (init_cache 1000 :: string CacheService)))))"
proof -
  from expiry_without_live_row[where t = 1 and get_time = 5 and now = 0 and persist = True
      and db_ok = True and dumps = Some and v = "''v''" and k = "''k''"
      and s = "init_cache 1000" and cleanup_time = 0 and loads = Some and get_ok = True
      and str_len = length and stats_ok = True]
  show ?thesis by (simp add: Let_def)
qed

text \<open>
  Claim C2 as stated fails: the key is persisted with a TTL of 1000 s at time 0, set again
  without persistence with a TTL of 1 s at time 1, and read at time 5, four seconds after
  the second \<^verbatim>\<open>set\<close>: the \<^verbatim>\<open>get\<close> returns the first value.
\<close>

theorem expiry_counterexample:
  "fst (cache_get Some True 5 ''k''
         (cache_set Some True 1 1 ''k'' ''new'' 1 False
           (cache_set Some True 0 0 ''k'' ''old'' 1000 True (init_cache 1000)))) = Some ''old''"
  by (simp add: cache_get_def cache_set_def init_cache_def cleanup_memory_cache_def keys_to_delete_def
        get_memory_tier_def get_persistent_tier_def is_expired_def Let_def)

text \<open>
  Claim C3 (read after write), as amended. The sweep that \<^verbatim>\<open>set\<close> runs can evict the entry
  just written (the examples after the theorem). When fewer than
  \<^verbatim>\<open>max_memory_entries\<close> other entries of the memory tier were last accessed at or after
  the clock reading of the \<^verbatim>\<open>set\<close>, and neither the sweep nor the \<^verbatim>\<open>get\<close> reads the clock
  \<^verbatim>\<open>ttl\<close> seconds or more after it, the \<^verbatim>\<open>get\<close> returns the value written, whatever the
  persistence flag and the state of the database.
\<close>

theorem read_after_write_when_retained:
  fixes s :: "'v CacheService"
  assumes "cache_inv s"
    and "cleanup_time - now < of_int t"
    and "get_time - now < of_int t"
    and "int (length (filter (\<lambda>(k', e). k' \<noteq> k \<and> now \<le> last_accessed e) (memory_cache s)))
                < max_memory_entries s"
  shows "fst (cache_get loads get_ok get_time k
               (cache_set dumps db_ok now cleanup_time k v t persist s)) = Some v"
  using fresh_entry_retained[OF assms(1,2,4), of dumps db_ok v persist] assms(3)
  by (simp add: cache_get_def get_memory_tier_def)

text \<open>The theorem at a concrete cache.\<close>

theorem read_after_write_when_retained_witness:
  "cache_inv
     \<lparr>memory_cache =
        [(''a'', \<lparr>key = ''a'', val = ''x'', ttl = 100, created_at = 1, access_count = 0, last_accessed = 1\<rparr>)],
      max_memory_entries = 1, db = []\<rparr>
   \<and> fst (cache_get Some True 11 ''k''
           (cache_set Some True 10 10 ''k'' ''v'' 60 False
             \<lparr>memory_cache =
                [(''a'', \<lparr>key = ''a'', val = ''x'', ttl = 100, created_at = 1, access_count = 0, last_accessed = 1\<rparr>)],
              max_memory_entries = 1, db = []\<rparr>)) = Some ''v''"
proof -
  let ?s = "\<lparr>memory_cache =
        [(''a'', \<lparr>key = ''a'', val = ''x'', ttl = 100, created_at = 1, access_count = 0, last_accessed = 1::real\<rparr>)],
      max_memory_entries = 1, db = []\<rparr>"
  have h: "cache_inv ?s" by (simp add: cache_inv_def)
  have c: "(10::real) - 10 < of_int 60" by simp
  have g: "(11::real) - 10 < of_int 60" by simp
  have n: "int (length (filter (\<lambda>(k', e). k' \<noteq> ''k'' \<and> 10 \<le> last_accessed e) (memory_cache ?s)))
            < max_memory_entries ?s" by simp
  from read_after_write_when_retained[OF h c g n, of Some True Some True "''v''" False] h
  show ?thesis by simp
qed

text \<open>
  Claim C3 as stated fails. With a capacity of 0 the sweep evicts the entry at once and the
  \<^verbatim>\<open>get\<close> finds nothing. With a capacity of 1: \<^verbatim>\<open>a\<close> and \<^verbatim>\<open>b\<close> are persisted (\<^verbatim>\<open>a\<close> is
  evicted by the second \<^verbatim>\<open>set\<close>), \<^verbatim>\<open>get(a)\<close> promotes \<^verbatim>\<open>a\<close> behind \<^verbatim>\<open>b\<close> at clock reading
  10, and \<^verbatim>\<open>set(b, w2)\<close> at the same clock reading updates \<^verbatim>\<open>b\<close> in place; the stable sort
  puts \<^verbatim>\<open>b\<close> first among the two equal \<^verbatim>\<open>last_accessed\<close>, \<^verbatim>\<open>b\<close> is evicted, and the
  \<^verbatim>\<open>get(b)\<close> that follows returns the older persisted value \<^verbatim>\<open>w\<close>.
\<close>

theorem read_after_write_counterexample:
  "fst (cache_get Some True 0 ''k''
         (cache_set Some True 0 0 ''k'' ''v'' 60 False (init_cache 0))) = None
   \<and> fst (cache_get Some True 11 ''b''
           (cache_set Some True 10 10 ''b'' ''w2'' 100 False
             (snd (cache_get Some True 10 ''a''
               (cache_set Some True 2 2 ''b'' ''w'' 100 True
                 (cache_set Some True 1 1 ''a'' ''v0'' 100 True (init_cache 1))))))) = Some ''w''"
  by (simp add: cache_get_def cache_set_def init_cache_def cleanup_memory_cache_def keys_to_delete_def
        get_memory_tier_def get_persistent_tier_def is_expired_def Let_def)

text \<open>
  Claim C4 (promotion). For a key that the memory tier does not hold and whose row in the
  database is live and parses to \<open>v\<close>, \<^verbatim>\<open>get\<close> returns \<open>v\<close> and the memory tier then
  holds an entry of the key with the row's \<^verbatim>\<open>created_at\<close> and \<^verbatim>\<open>ttl\<close>: the lifetime that is
  left is the row's, it does not start again.
\<close>

theorem promotion_preserves_lifetime:
  assumes "k \<notin> fst ` set (memory_cache s)"
    and "map_of (db s) k = Some row"
    and "now - row_created_at row < of_int (row_ttl row)"
    and "loads (row_value row) = Some v"
  shows "fst (cache_get loads True now k s) = Some v
       \<and> map_of (memory_cache (snd (cache_get loads True now k s))) k
           = Some \<lparr>key = k, val = v, ttl = row_ttl row, created_at = row_created_at row,
                    access_count = 0, last_accessed = now\<rparr>"
proof -
  from assms(1) have "map_of (memory_cache s) k = None"
    by (simp add: map_of_eq_None_iff)
  then have "get_memory_tier now k (memory_cache s) = (None, memory_cache s)"
    by (simp add: get_memory_tier_def)
  then show ?thesis
    using assms(2,3,4) by (simp add: cache_get_def get_persistent_tier_def update_conv')
qed

text \<open>The theorem at a concrete cache.\<close>

theorem promotion_preserves_lifetime_witness:
  "fst (cache_get Some True 50 ''k''
     \<lparr>memory_cache = [], max_memory_entries = 10,
      db = [(''k'', \<lparr>row_value = ''v'', row_ttl = 100, row_created_at = 0, row_access_count = 0,
                      row_last_accessed = 0\<rparr>)]\<rparr>) = Some ''v''
   \<and> map_of (memory_cache (snd (cache_get Some True 50 ''k''
     \<lparr>memory_cache = [], max_memory_entries = 10,
      db = [(''k'', \<lparr>row_value = ''v'', row_ttl = 100, row_created_at = 0, row_access_count = 0,
                      row_last_accessed = 0\<rparr>)]\<rparr>))) ''k''
       = Some \<lparr>key = ''k'', val = ''v'', ttl = 100, created_at = 0, access_count = 0,
                last_accessed = 50\<rparr>"
proof -
  let ?row = "\<lparr>row_value = ''v'', row_ttl = 100, row_created_at = 0, row_access_count = 0,
                      row_last_accessed = 0::real\<rparr>"
  let ?s = "\<lparr>memory_cache = [] :: (string \<times> string CacheEntry) list, max_memory_entries = 10, db = [(''k'', ?row)]\<rparr>"
  from promotion_preserves_lifetime[where k = "''k''" and s = ?s and row = ?row and now = 50
      and loads = Some and v = "''v''"]
  show ?thesis by simp
qed

text \<open>
  Claim C5 (invalid TTL), as amended. \<^verbatim>\<open>set\<close> validates nothing and has no error result.
  For a TTL that is not positive and a clock that does not run backwards, the sweep of the
  same call removes the entry, so the memory tier does not hold the key afterwards (an
  older entry of the key is gone too); with \<^verbatim>\<open>persist=True\<close> and a write that succeeds
  the row is stored in the database with that TTL.
\<close>

theorem nonpositive_ttl_accepted:
  assumes "t \<le> 0" and "now \<le> cleanup_time"
  shows "let s1 = cache_set dumps db_ok now cleanup_time k v t persist s
         in k \<notin> fst ` set (memory_cache s1)
          \<and> (\<forall>txt. persist \<and> db_ok \<and> dumps v = Some txt \<longrightarrow>
                map_of (db s1) k
                  = Some \<lparr>row_value = txt, row_ttl = t, row_created_at = now,
                           row_access_count = 0, row_last_accessed = now\<rparr>)"
proof -
  let ?E = "\<lparr>key = k, val = v, ttl = t, created_at = now, access_count = 0, last_accessed = now\<rparr>"
  let ?s1 = "s\<lparr>memory_cache := AList.update k ?E (memory_cache s)\<rparr>"
  have exp: "is_expired cleanup_time ?E"
    using assms by (simp add: is_expired_def)
  have "k \<notin> fst ` set (memory_cache (cleanup_memory_cache cleanup_time ?s1))"
  proof
    assume "k \<in> fst ` set (memory_cache (cleanup_memory_cache cleanup_time ?s1))"
    then have "k \<notin> set (keys_to_delete cleanup_time ?s1)"
      by (auto simp: cleanup_memory_filter)
    moreover have "(k, ?E) \<in> set (memory_cache ?s1)"
      by (rule map_of_SomeD) (simp add: update_conv')
    ultimately show False
      using expired_in_keys_to_delete[OF _ exp] by blast
  qed
  then show ?thesis
    by (simp add: Let_def cache_set_memory cache_set_db update_conv')
qed

text \<open>The theorem at a concrete cache.\<close>

theorem nonpositive_ttl_accepted_witness:
  "''k'' \<notin> fst ` set (memory_cache
       (cache_set Some True 10 10 ''k'' ''v'' (- 5) True (init_cache 1000)))
   \<and> map_of (db (cache_set Some True 10 10 ''k'' ''v'' (- 5) True (init_cache 1000))) ''k''
       = Some \<lparr>row_value = ''v'', row_ttl = - 5, row_created_at = 10, row_access_count = 0,
                row_last_accessed = 10\<rparr>"
proof -
  have a: "(- 5::int) \<le> 0" by simp
  have b: "(10::real) \<le> 10" by simp
  from nonpositive_ttl_accepted[OF a b, of Some True "''k''" "''v''" True "init_cache 1000"]
  show ?thesis by (simp add: Let_def)
qed

text \<open>
  Claim C5 as stated fails: \<^verbatim>\<open>set\<close> with a TTL of -5 and \<^verbatim>\<open>persist=True\<close> returns normally
  and the database holds the row with the TTL -5.
\<close>

theorem invalid_ttl_counterexample:
  "map_of (db (cache_set Some True 10 10 ''k'' ''v'' (- 5) True (init_cache 1000))) ''k''
     = Some \<lparr>row_value = ''v'', row_ttl = - 5, row_created_at = 10, row_access_count = 0,
              row_last_accessed = 10\<rparr>"
  by (simp add: cache_set_def init_cache_def cleanup_memory_cache_def keys_to_delete_def
        is_expired_def Let_def)

text \<open>
  Claim C6 (the lookup in the memory tier), as amended. The lookup returns a value only
  from an entry with \<^verbatim>\<open>now - created_at < ttl\<close>. An entry that it finds expired it deletes
  from the dictionary; a key that is absent leaves the dictionary as it is; no entry of
  another key changes.
\<close>

theorem memory_lookup_live_only:
  "(\<forall>v. fst (get_memory_tier now k cache) = Some v \<longrightarrow>
      (\<exists>e. map_of cache k = Some e \<and> now - created_at e < of_int (ttl e) \<and> val e = v))
   \<and> (\<forall>e. map_of cache k = Some e \<and> is_expired now e \<longrightarrow>
         get_memory_tier now k cache = (None, AList.delete k cache))
   \<and> (map_of cache k = None \<longrightarrow> get_memory_tier now k cache = (None, cache))
   \<and> (\<forall>k'. k' \<noteq> k \<longrightarrow> map_of (snd (get_memory_tier now k cache)) k' = map_of cache k')"
  by (auto simp: get_memory_tier_def is_expired_def update_conv' delete_conv'
        split: option.splits if_splits)

text \<open>The theorem at a concrete cache.\<close>

theorem memory_lookup_live_only_witness:
  "get_memory_tier 100 ''k''
     [(''k'', \<lparr>key = ''k'', val = ''v'', ttl = 10, created_at = 0, access_count = 0,
                last_accessed = 0\<rparr>)] = (None, [])
   \<and> fst (get_memory_tier 5 ''k''
     [(''k'', \<lparr>key = ''k'', val = ''v'', ttl = 10, created_at = 0, access_count = 0,
                last_accessed = 0\<rparr>)]) = Some ''v''"
proof -
  let ?e = "\<lparr>key = ''k'', val = ''v'', ttl = 10, created_at = 0, access_count = 0,
                last_accessed = 0::real\<rparr>"
  from memory_lookup_live_only[of 100 "''k''" "[(''k'', ?e)]"]
  have "get_memory_tier 100 ''k'' [(''k'', ?e)] = (None, [])"
    by (simp add: is_expired_def)
  moreover have "fst (get_memory_tier 5 ''k'' [(''k'', ?e)]) = Some ''v''"
    by (simp add: get_memory_tier_def)
  ultimately show ?thesis by simp
qed

text \<open>
  Claim C6 as stated fails: the lookup of an expired entry removes it, the dictionary is
  not what it was.
\<close>

theorem memory_lookup_counterexample:
  "is_expired 100 \<lparr>key = ''k'', val = ''v'', ttl = 10, created_at = 0, access_count = 0,
                       last_accessed = 0\<rparr>
   \<and> snd (get_memory_tier 100 ''k''
            [(''k'', \<lparr>key = ''k'', val = ''v'', ttl = 10, created_at = 0, access_count = 0,
                       last_accessed = 0\<rparr>)]) = []"
  by (simp add: get_memory_tier_def is_expired_def)

section \<open>Properties of the memory retriever\<close>

subsection \<open>Strings, sorting and ranking\<close>

lemma take_eq_prefix: "take (length sub) s = sub \<longleftrightarrow> prefix sub s"
  by (metis append_eq_conv_conj prefix_def)

lemma str_count_pos:
  "sub \<noteq> [] \<Longrightarrow> 0 < str_count s sub \<longleftrightarrow> sublist sub s"
proof (induction s sub rule: str_count.induct)
  case (1 s sub)
  show ?case
  proof (cases "length s < length sub")
    case True
    then have "\<not> sublist sub s"
      using sublist_length_le by fastforce
    with True 1(3) show ?thesis by (simp add: str_count.simps[of s sub])
  next
    case long: False
    show ?thesis
    proof (cases "take (length sub) s = sub")
      case True
      then have "sublist sub s"
        by (simp add: take_eq_prefix)
      with True long 1(3) show ?thesis by (simp add: str_count.simps[of s sub])
    next
      case False
      from long 1(3) obtain c cs where s: "s = c # cs"
        by (cases s) auto
      from False have "\<not> prefix sub s" by (simp add: take_eq_prefix)
      then have "sublist sub s \<longleftrightarrow> sublist sub (tl s)"
        by (simp add: s sublist_Cons_right)
      moreover have "str_count s sub = str_count (tl s) sub"
        using False long 1(3) by (simp add: str_count.simps[of s sub])
      ultimately show ?thesis
        using 1(2)[OF 1(3) long False 1(3)] by simp
    qed
  qed
qed

lemma str_contains_sublist: "str_contains s sub \<longleftrightarrow> sublist sub s"
  by (induction s) (auto simp: sublist_Cons_right take_eq_prefix simp flip: take_eq_prefix)

text \<open>
  The functions of the examples beyond ASCII: a no-break space separates two words, an
  accented capital letter is lowered while the multiplication sign and the sharp s stay,
  and a query written with a no-break space selects the fragments of both its words.
\<close>

lemma str_split_no_break_space:
  "str_split (''hiking'' @ [CHR 0xA0] @ ''mountains'') = [''hiking'', ''mountains'']"
  by code_simp

lemma str_lower_accented:
  "str_lower [CHR 0xC9, CHR ''T'', CHR 0xC9, CHR 0xD7, CHR 0xDF]
     = [CHR 0xE9, CHR ''t'', CHR 0xE9, CHR 0xD7, CHR 0xDF]"
  by code_simp

lemma rank_no_break_space:
  "rank_memories_by_relevance str_lower str_split
     [''I love hiking in mountains'', ''I love cats'', ''hiking is fun'']
     (''hiking'' @ [CHR 0xA0] @ ''mountains'')
   = [''I love hiking in mountains'', ''hiking is fun'']"
  by code_simp

lemma insort_key_map:
  "insort_key g (h x) (map h ys) = map h (insort_key (\<lambda>y. g (h y)) x ys)"
  by (induction ys) auto

lemma sort_key_map:
  "sort_key g (map h xs) = map h (sort_key (\<lambda>y. g (h y)) xs)"
  by (induction xs) (auto simp: sort_key_simps insort_key_map)

lemma rank_memories_eq:
  "rank_memories_by_relevance lower split memories query =
     filter (\<lambda>m. 0 < relevance_score lower (remdups (split (lower query))) m)
       (sort_key (\<lambda>m. - int (relevance_score lower (remdups (split (lower query))) m)) memories)"
  by (simp add: rank_memories_by_relevance_def Let_def sort_key_map filter_map comp_def)

lemma relevance_score_pos:
  "0 < relevance_score lower ws m \<longleftrightarrow> (\<exists>w \<in> set ws. length w > 2 \<and> sublist w (lower m))"
proof -
  have "0 < relevance_score lower ws m \<longleftrightarrow>
        (\<exists>w \<in> set ws. 0 < (if length w > 2 then str_count (lower m) w * length w else 0))"
    unfolding relevance_score_def by (induction ws) auto
  also have "\<dots> \<longleftrightarrow> (\<exists>w \<in> set ws. length w > 2 \<and> sublist w (lower m))"
  proof (rule bex_cong[OF refl])
    fix w assume "w \<in> set ws"
    show "0 < (if length w > 2 then str_count (lower m) w * length w else 0)
          \<longleftrightarrow> length w > 2 \<and> sublist w (lower m)"
    proof (cases "length w > 2")
      case True
      then have "w \<noteq> []" by auto
      from str_count_pos[OF this, of "lower m"] True \<open>w \<noteq> []\<close> show ?thesis by simp
    next
      case False
      then show ?thesis by simp
    qed
  qed
  finally show ?thesis .
qed

lemma relevance_score_matching:
  "relevance_score lower ws m =
     sum_list (map (\<lambda>w. str_count (lower m) w * length w)
                 (filter (\<lambda>w. length w > 2 \<and> sublist w (lower m)) ws))"
proof (induction ws)
  case Nil
  show ?case by (simp add: relevance_score_def)
next
  case (Cons w ws)
  have zero: "str_count (lower m) w = 0" if "length w > 2" "\<not> sublist w (lower m)"
  proof -
    from that(1) have "w \<noteq> []" by auto
    from str_count_pos[OF this, of "lower m"] that(2) show ?thesis by simp
  qed
  from Cons show ?case
    by (auto simp: relevance_score_def zero)
qed

text \<open>
  Claim C7 (ranking). Whatever \<^verbatim>\<open>str.lower\<close> and \<^verbatim>\<open>str.split()\<close> compute, on strings over
  any type of characters, and with the query words being the distinct words of the
  lowercased query: the result holds, each as often as it is among the candidates, exactly the
  candidates whose lowercased text has a query word of more than two characters as a
  substring, so a candidate with no such word is left out; the score of a candidate is the
  sum, over the query words of more than two characters that occur in it, of the number of
  occurrences times the length of the word; the result is in descending order of the
  score. For the three fragments and the query of the specification, which are ASCII text,
  the result is the first fragment followed by the third.
\<close>

theorem ranking_correct:
  "let query_words = remdups (split (lower query));
       result = rank_memories_by_relevance lower split memories query
   in mset result
        = mset (filter (\<lambda>m. \<exists>w \<in> set query_words. length w > 2 \<and> sublist w (lower m))
                  memories)
    \<and> (\<forall>m. relevance_score lower query_words m =
            sum_list (map (\<lambda>w. str_count (lower m) w * length w)
                        (filter (\<lambda>w. length w > 2 \<and> sublist w (lower m)) query_words)))
    \<and> sorted_wrt (\<lambda>a b. relevance_score lower query_words a
                        \<ge> relevance_score lower query_words b) result
    \<and> rank_memories_by_relevance str_lower str_split
         [''I love hiking in mountains'', ''I love cats'', ''hiking is fun'']
         ''hiking mountains''
       = [''I love hiking in mountains'', ''hiking is fun'']"
proof -
  let ?ws = "remdups (split (lower query))"
  let ?f = "relevance_score lower ?ws"
  let ?S = "sort_key (\<lambda>m. - int (?f m)) memories"
  have "mset (rank_memories_by_relevance lower split memories query) = mset (filter (\<lambda>m. 0 < ?f m) memories)"
    by (simp add: rank_memories_eq)
  then have a: "mset (rank_memories_by_relevance lower split memories query)
        = mset (filter (\<lambda>m. \<exists>w \<in> set ?ws. length w > 2 \<and> sublist w (lower m)) memories)"
    by (simp only: relevance_score_pos)
  have "sorted (map (\<lambda>m. - int (?f m)) ?S)"
    by (rule sorted_sort_key)
  then have "sorted (map (\<lambda>m. - int (?f m)) (filter (\<lambda>m. 0 < ?f m) ?S))"
    by (rule sorted_filter)
  then have "sorted_wrt (\<lambda>a b. - int (?f a) \<le> - int (?f b)) (filter (\<lambda>m. 0 < ?f m) ?S)"
    by (simp add: sorted_map)
  then have c: "sorted_wrt (\<lambda>a b. ?f a \<ge> ?f b) (rank_memories_by_relevance lower split memories query)"
    by (simp add: rank_memories_eq)
  have d: "rank_memories_by_relevance str_lower str_split
         [''I love hiking in mountains'', ''I love cats'', ''hiking is fun'']
         ''hiking mountains''
       = [''I love hiking in mountains'', ''hiking is fun'']"
    by code_simp
  show ?thesis
    unfolding Let_def using a c d relevance_score_matching by blast
qed

text \<open>The theorem at a concrete input.\<close>

theorem ranking_correct_witness:
  "rank_memories_by_relevance str_lower str_split
     [''I love hiking in mountains'', ''I love cats'', ''hiking is fun'', ''Hiking hiking''] ''hiking mountains''
     = [''I love hiking in mountains'', ''Hiking hiking'', ''hiking is fun'']
   \<and> sorted_wrt (\<lambda>a b. relevance_score str_lower [''hiking'', ''mountains''] a
                       \<ge> relevance_score str_lower [''hiking'', ''mountains''] b)
       [''I love hiking in mountains'', ''Hiking hiking'', ''hiking is fun'']"
proof -
  have r: "rank_memories_by_relevance str_lower str_split
     [''I love hiking in mountains'', ''I love cats'', ''hiking is fun'', ''Hiking hiking''] ''hiking mountains''
     = [''I love hiking in mountains'', ''Hiking hiking'', ''hiking is fun'']"
    by code_simp
  have w: "remdups (str_split (str_lower ''hiking mountains'')) = [''hiking'', ''mountains'']"
    by code_simp
  from ranking_correct[where lower = str_lower and split = str_split
      and query = "''hiking mountains''"
      and memories = "[''I love hiking in mountains'', ''I love cats'', ''hiking is fun'', ''Hiking hiking'']"]
  show ?thesis
    unfolding Let_def r w by blast
qed

subsection \<open>The result cache of the manager\<close>

lemma extract_current_cache [simp]:
  "mm_cache (snd (extract_current_session_memories lower split q l st)) = mm_cache st"
  by (simp add: extract_current_session_memories_def Let_def)

lemma extract_historical_cache [simp]:
  "mm_cache (snd (extract_historical_memories lower split q l st)) = mm_cache st"
  by (simp add: extract_historical_memories_def Let_def split: prod.split)

lemma get_relevant_hit:
  assumes "map_of (mm_cache st) (cache_key hash_str q n) = Some (ms, ts)"
    and "t - ts < cache_expiry"
  shows "get_relevant_memories lower split hash_str t t' q n st = (ms, st)"
  using assms by (simp add: get_relevant_memories_def)

lemma get_relevant_miss:
  assumes "\<forall>ms ts. map_of (mm_cache st) (cache_key hash_str q n) = Some (ms, ts) \<longrightarrow> \<not> t - ts < cache_expiry"
  shows "get_relevant_memories lower split hash_str t t' q n st =
    (let c = extract_current_session_memories lower split q (n div 2) st;
         h = extract_historical_memories lower split q (n div 2) (snd c);
         r = slice_to n (rank_memories_by_relevance lower split (fst c @ fst h) q)
     in (r, (snd h)\<lparr>mm_cache := AList.update (cache_key hash_str q n) (r, t') (mm_cache st)\<rparr>))"
proof -
  have "(case map_of (mm_cache st) (cache_key hash_str q n) of
             None \<Rightarrow> None
           | Some (memories, timestamp) \<Rightarrow>
               if t - timestamp < cache_expiry then Some memories else None) = None"
    using assms by (auto split: option.split)
  then show ?thesis
    by (simp add: get_relevant_memories_def Let_def case_prod_unfold)
qed

lemma get_relevant_cases:
  obtains (hit) ms ts where "map_of (mm_cache st) (cache_key hash_str q n) = Some (ms, ts)"
      "t - ts < cache_expiry"
  | (miss) "\<forall>ms ts. map_of (mm_cache st) (cache_key hash_str q n) = Some (ms, ts) \<longrightarrow> \<not> t - ts < cache_expiry"
  by blast

lemma get_relevant_cached:
  assumes "get_relevant_memories lower split hash_str t t' q n st = (r, st')"
  shows "\<exists>ts. map_of (mm_cache st') (cache_key hash_str q n) = Some (r, ts)"
proof (cases rule: get_relevant_cases[of st hash_str q n t])
  case (hit ms ts)
  with assms get_relevant_hit[OF hit, of lower split t'] show ?thesis by auto
next
  case miss
  from get_relevant_miss[OF miss, of lower split t'] assms show ?thesis
    by (auto simp: Let_def update_conv')
qed

lemma slice_to_Nil [simp]: "slice_to n [] = []"
  by (simp add: slice_to_def)

lemma slice_to_0 [simp]: "slice_to 0 xs = []"
  by (simp add: slice_to_def)

lemma rank_Nil [simp]: "rank_memories_by_relevance lower split [] q = []"
  by (simp add: rank_memories_by_relevance_def)


lemma small_limit_step:
  assumes "0 \<le> limit" and "limit \<le> 1"
    and "small_limit_inv hash_str st"
  shows "fst (get_relevant_memories lower split hash_str check_time store_time query limit st) = []
       \<and> small_limit_inv hash_str
           (snd (get_relevant_memories lower split hash_str check_time store_time query limit st))"
proof (cases rule: get_relevant_cases[of st hash_str query limit check_time])
  case (hit ms ts)
  from assms hit(1) have "ms = []"
    unfolding small_limit_inv_def by blast
  with get_relevant_hit[OF hit, of lower split store_time] assms(3) show ?thesis by simp
next
  case miss
  have d: "limit div 2 = 0" using assms(1,2) by simp
  have "fst (extract_current_session_memories lower split query 0 st) = []"
    by (simp add: extract_current_session_memories_def Let_def)
  moreover have "fst (extract_historical_memories lower split query 0 st2) = []" for st2
    by (simp add: extract_historical_memories_def Let_def split: prod.split)
  ultimately have r: "get_relevant_memories lower split hash_str check_time store_time query limit st =
      ([], (snd (extract_historical_memories lower split query 0 (snd (extract_current_session_memories lower split query 0 st))))
            \<lparr>mm_cache := AList.update (cache_key hash_str query limit) ([], store_time) (mm_cache st)\<rparr>)"
    using get_relevant_miss[OF miss, of lower split store_time] by (simp add: Let_def d)
  show ?thesis
    unfolding r using assms(3)
    by (auto simp: small_limit_inv_def update_conv' split: if_splits)
qed

lemma digit_char_inj:
  assumes "d < 10" "e < 10" "(char_of (48 + d) :: char) = char_of (48 + e)"
  shows "d = (e::nat)"
proof -
  from assms(3) have "(of_char (char_of (48 + d) :: char) :: nat) = of_char (char_of (48 + e) :: char)"
    by simp
  with assms(1,2) show ?thesis by (simp add: of_char_of)
qed

lemma str_nat_nonempty: "str_nat n \<noteq> []"
  by (subst str_nat.simps) simp

lemma str_nat_digits:
  "c \<in> set (str_nat n) \<Longrightarrow> 48 \<le> (of_char c :: nat) \<and> (of_char c :: nat) \<le> 57"
proof (induction n rule: str_nat.induct)
  case (1 n)
  show ?case
  proof (cases "n < 10")
    case True
    with 1(2) have "c = char_of (48 + n)" by (simp add: str_nat.simps[of n])
    with True show ?thesis by (simp add: of_char_of)
  next
    case False
    with 1(2) have "c \<in> set (str_nat (n div 10)) \<or> c = char_of (48 + n mod 10)"
      by (auto simp: str_nat.simps[of n])
    then show ?thesis
    proof
      assume "c \<in> set (str_nat (n div 10))"
      with 1(1)[OF False] show ?thesis .
    next
      assume "c = char_of (48 + n mod 10)"
      moreover have "n mod 10 < 10" by simp
      ultimately show ?thesis by (simp add: of_char_of)
    qed
  qed
qed

lemma str_nat_inj: "str_nat n = str_nat m \<Longrightarrow> n = m"
proof (induction n arbitrary: m rule: str_nat.induct)
  case (1 n)
  show ?case
  proof (cases "n < 10")
    case n: True
    show ?thesis
    proof (cases "m < 10")
      case True
      with n 1(2) show ?thesis
        by (simp add: str_nat.simps[of n] str_nat.simps[of m] digit_char_inj)
    next
      case False
      with n 1(2) str_nat_nonempty[of "m div 10"] show ?thesis
        by (simp add: str_nat.simps[of n] str_nat.simps[of m])
    qed
  next
    case n: False
    show ?thesis
    proof (cases "m < 10")
      case True
      with n 1(2) str_nat_nonempty[of "n div 10"] show ?thesis
        by (simp add: str_nat.simps[of n] str_nat.simps[of m])
    next
      case False
      with n 1(2) have e: "str_nat (n div 10) = str_nat (m div 10)"
          "(char_of (48 + n mod 10) :: char) = char_of (48 + m mod 10)"
        by (simp_all add: str_nat.simps[of n] str_nat.simps[of m])
      from 1(1)[OF n e(1)] have "n div 10 = m div 10" .
      moreover from digit_char_inj[OF _ _ e(2)] have "n mod 10 = m mod 10" by simp
      ultimately show ?thesis by (metis div_mult_mod_eq)
    qed
  qed
qed

lemma str_nat_no_minus: "CHR ''-'' \<notin> set (str_nat n)"
  using str_nat_digits[of "CHR ''-''" n] by auto

lemma str_int_inj: "str_int i = str_int j \<Longrightarrow> i = j"
proof -
  assume e: "str_int i = str_int j"
  have hd: "hd (str_nat n) \<noteq> CHR ''-''" for n
    using str_nat_no_minus[of n] str_nat_nonempty[of n] by (cases "str_nat n") auto
  show ?thesis
  proof (cases "i < 0"; cases "j < 0")
    assume "i < 0" "j < 0"
    with e have "nat (- i) = nat (- j)" by (simp add: str_int_def str_nat_inj)
    with \<open>i < 0\<close> \<open>j < 0\<close> show ?thesis by simp
  next
    assume "i < 0" "\<not> j < 0"
    with e have "str_nat (nat j) = CHR ''-'' # str_nat (nat (- i))" by (simp add: str_int_def)
    then have "hd (str_nat (nat j)) = CHR ''-''" by simp
    with hd[of "nat j"] show ?thesis by blast
  next
    assume "\<not> i < 0" "j < 0"
    with e have "str_nat (nat i) = CHR ''-'' # str_nat (nat (- j))" by (simp add: str_int_def)
    then have "hd (str_nat (nat i)) = CHR ''-''" by simp
    with hd[of "nat i"] show ?thesis by blast
  next
    assume "\<not> i < 0" "\<not> j < 0"
    with e have "nat i = nat j" by (simp add: str_int_def str_nat_inj)
    with \<open>\<not> i < 0\<close> \<open>\<not> j < 0\<close> show ?thesis by simp
  qed
qed

lemma str_int_no_underscore: "CHR ''_'' \<notin> set (str_int i)"
  using str_nat_digits[of "CHR ''_''"] by (auto simp: str_int_def)

lemma cache_key_inj:
  assumes "cache_key hash_str q l = cache_key hash_str q' l'"
  shows "l = l'"
proof -
  from assms have "str_int (hash_str q) @ CHR ''_'' # str_int l
      = str_int (hash_str q') @ CHR ''_'' # str_int l'"
    by (simp add: cache_key_def)
  then have "str_int l = str_int l'"
    using append_Cons_eq_iff[OF str_int_no_underscore str_int_no_underscore] by blast
  then show ?thesis by (rule str_int_inj)
qed

lemma small_limit_inv_init: "small_limit_inv hash_str (init_manager session files)"
  by (simp add: small_limit_inv_def init_manager_def)

lemma small_limit_inv_preserved:
  assumes "small_limit_inv hash_str st"
  shows "small_limit_inv hash_str (snd (get_relevant_memories lower split hash_str t t' q n st))"
proof (cases "0 \<le> n \<and> n \<le> 1")
  case True
  with small_limit_step[OF _ _ assms, of n lower split t t' q] show ?thesis by blast
next
  case False
  show ?thesis
  proof (cases rule: get_relevant_cases[of st hash_str q n t])
    case (hit ms ts)
    from get_relevant_hit[OF hit, of lower split t'] assms show ?thesis by simp
  next
    case miss
    have "cache_key hash_str q' l \<noteq> cache_key hash_str q n" if "0 \<le> l" "l \<le> 1" for q' l
      using that False cache_key_inj by blast
    with assms show ?thesis
      unfolding get_relevant_miss[OF miss, of lower split t'] Let_def
      by (auto simp: small_limit_inv_def update_conv')
  qed
qed

lemma ex_first_call:
  "get_relevant_memories str_lower str_split (\<lambda>s. 7) 5 6 ''hiking'' 4
     (init_manager [\<lparr>role = Some ''user'', content = Some ''I love hiking''\<rparr>]
        [(''session_1.json'', Some [\<lparr>role = None, content = Some ''Hiking boots''\<rparr>])])
   = ([''[user] I love hiking'', ''[unknown] Hiking boots''],
      \<lparr>current_session = [\<lparr>role = Some ''user'', content = Some ''I love hiking''\<rparr>],
       history_files = [(''session_1.json'', Some [\<lparr>role = None, content = Some ''Hiking boots''\<rparr>])],
       adapter_calls = 3,
       mm_cache = [(''memories_7_4'', ([''[user] I love hiking'', ''[unknown] Hiking boots''], 6))]\<rparr>)"
  by code_simp

text \<open>
  Claim C8 (cached results), as amended. The manager keeps the ranked list in its own
  dictionary, under \<^verbatim>\<open>memories_<hash(query)>_<limit>\<close>, and not in the \<^verbatim>\<open>CacheService\<close>
  (the example after the theorem). After a call with a query and a limit, a second
  call with the same query and limit that reads the clock less than \<open>cache_expiry\<close>
  (3600 s) after the timestamp cached under the key returns the same list and leaves the
  whole state as it is, the count of the calls of the chat history included.
\<close>

theorem relevant_memories_idempotent:
  assumes "get_relevant_memories lower split hash_str check_time store_time query limit st = (memories, st1)"
    and "cached_timestamp hash_str query limit st1 = Some ts"
    and "again_time - ts < cache_expiry"
  shows "get_relevant_memories lower split hash_str again_time store_again query limit st1 = (memories, st1)
       \<and> adapter_calls (snd (get_relevant_memories lower split hash_str again_time store_again query limit st1))
           = adapter_calls st1
       \<and> map_of (mm_cache st1) (cache_key hash_str query limit) = Some (memories, ts)"
proof -
  from get_relevant_cached[OF assms(1)] obtain ts' where
    c: "map_of (mm_cache st1) (cache_key hash_str query limit) = Some (memories, ts')"
    by blast
  with assms(2) have "ts' = ts" by (simp add: cached_timestamp_def)
  with c have c': "map_of (mm_cache st1) (cache_key hash_str query limit) = Some (memories, ts)"
    by simp
  from get_relevant_hit[OF c' assms(3), of lower split store_again] c' show ?thesis by simp
qed

text \<open>The theorem at a concrete input.\<close>

theorem relevant_memories_idempotent_witness:
  "get_relevant_memories str_lower str_split (\<lambda>s. 7) 100 101 ''hiking'' 4
     \<lparr>current_session = [\<lparr>role = Some ''user'', content = Some ''I love hiking''\<rparr>],
       history_files = [(''session_1.json'', Some [\<lparr>role = None, content = Some ''Hiking boots''\<rparr>])],
       adapter_calls = 3,
       mm_cache = [(''memories_7_4'', ([''[user] I love hiking'', ''[unknown] Hiking boots''], 6))]\<rparr>
   = ([''[user] I love hiking'', ''[unknown] Hiking boots''],
      \<lparr>current_session = [\<lparr>role = Some ''user'', content = Some ''I love hiking''\<rparr>],
       history_files = [(''session_1.json'', Some [\<lparr>role = None, content = Some ''Hiking boots''\<rparr>])],
       adapter_calls = 3,
       mm_cache = [(''memories_7_4'', ([''[user] I love hiking'', ''[unknown] Hiking boots''], 6))]\<rparr>)"
proof -
  let ?st1 = "\<lparr>current_session = [\<lparr>role = Some ''user'', content = Some ''I love hiking''\<rparr>],
       history_files = [(''session_1.json'', Some [\<lparr>role = None, content = Some ''Hiking boots''\<rparr>])],
       adapter_calls = 3,
       mm_cache = [(''memories_7_4'', ([''[user] I love hiking'', ''[unknown] Hiking boots''], 6::real))]\<rparr>"
  have k: "cache_key (\<lambda>s. 7) ''hiking'' 4 = ''memories_7_4''"
    by code_simp
  have c: "cached_timestamp (\<lambda>s. 7) ''hiking'' 4 ?st1 = Some 6"
    by (simp add: cached_timestamp_def k)
  have t: "(100::real) - 6 < cache_expiry"
    by (simp add: cache_expiry_def)
  from relevant_memories_idempotent[OF ex_first_call c t, of 101]
  show ?thesis by simp
qed

text \<open>
  Claim C8 as stated fails: the route of the application returns the ranked list and the
  manager's dictionary holds it afterwards, while the \<^verbatim>\<open>CacheService\<close> of the application
  is what it was, with no entry in either tier.
\<close>

theorem result_cache_counterexample:
  "fst (api_relevant_memories str_lower str_split (\<lambda>s. 7) 5 6 ''hiking'' 4
         \<lparr>cache_service = init_cache 1000 :: string CacheService,
          memory_manager = init_manager [\<lparr>role = Some ''user'', content = Some ''I love hiking''\<rparr>]
             [(''session_1.json'', Some [\<lparr>role = None, content = Some ''Hiking boots''\<rparr>])]\<rparr>)
     = Inr [''[user] I love hiking'', ''[unknown] Hiking boots'']
   \<and> cache_service (snd (api_relevant_memories str_lower str_split (\<lambda>s. 7) 5 6 ''hiking'' 4
         \<lparr>cache_service = init_cache 1000 :: string CacheService,
          memory_manager = init_manager [\<lparr>role = Some ''user'', content = Some ''I love hiking''\<rparr>]
             [(''session_1.json'', Some [\<lparr>role = None, content = Some ''Hiking boots''\<rparr>])]\<rparr>))
     = \<lparr>memory_cache = [], max_memory_entries = 1000, db = []\<rparr>
   \<and> mm_cache (memory_manager (snd (api_relevant_memories str_lower str_split (\<lambda>s. 7) 5 6 ''hiking'' 4
         \<lparr>cache_service = init_cache 1000 :: string CacheService,
          memory_manager = init_manager [\<lparr>role = Some ''user'', content = Some ''I love hiking''\<rparr>]
             [(''session_1.json'', Some [\<lparr>role = None, content = Some ''Hiking boots''\<rparr>])]\<rparr>)))
     = [(''memories_7_4'', ([''[user] I love hiking'', ''[unknown] Hiking boots''], 6))]"
  by (simp add: api_relevant_memories_def ex_first_call init_cache_def)

text \<open>
  Claim C10 (small limits), as amended. For a limit of 0 or 1 both sources are cut to
  \<^verbatim>\<open>limit // 2 = 0\<close> memories and the result is empty, in every state in which the lists
  cached for such limits are empty, and the state after the call is such a state again. A
  negative limit is another matter: \<^verbatim>\<open>-1 // 2\<close> is \<^verbatim>\<open>-1\<close> and the slices drop the last
  element only (the example after the theorem).
\<close>

theorem small_limit_empty:
  assumes "0 \<le> limit" and "limit \<le> 1"
    and "small_limit_inv hash_str st"
  shows "fst (get_relevant_memories lower split hash_str check_time store_time query limit st) = []
       \<and> small_limit_inv hash_str
           (snd (get_relevant_memories lower split hash_str check_time store_time query limit st))"
  using assms by (rule small_limit_step)

text \<open>The theorem at a concrete input.\<close>

theorem small_limit_empty_witness:
  "small_limit_inv (\<lambda>s. 7)
     (init_manager
        [\<lparr>role = Some ''user'', content = Some ''I love hiking''\<rparr>,
         \<lparr>role = Some ''assistant'', content = Some ''Hiking is fun''\<rparr>] [])
   \<and> fst (get_relevant_memories str_lower str_split (\<lambda>s. 7) 5 6 ''hiking'' 1
     (init_manager
        [\<lparr>role = Some ''user'', content = Some ''I love hiking''\<rparr>,
         \<lparr>role = Some ''assistant'', content = Some ''Hiking is fun''\<rparr>] [])) = []"
proof -
  let ?st = "init_manager
        [\<lparr>role = Some ''user'', content = Some ''I love hiking''\<rparr>,
         \<lparr>role = Some ''assistant'', content = Some ''Hiking is fun''\<rparr>] []"
  have a: "(0::int) \<le> 1" and b: "(1::int) \<le> 1" by simp_all
  have i: "small_limit_inv (\<lambda>s. 7) ?st" by (rule small_limit_inv_init)
  from small_limit_empty[OF a b i, of str_lower str_split 5 6 "''hiking''"] i show ?thesis by simp
qed

text \<open>
  Claim C10 as stated fails for the limit -1: of three matching messages of the session
  the slice \<^verbatim>\<open>[:-1]\<close> keeps two, and the last slice keeps one of them.
\<close>

theorem small_limit_counterexample:
  "fst (get_relevant_memories str_lower str_split (\<lambda>s. 7) 5 6 ''hiking'' (- 1)
     (init_manager
        [\<lparr>role = Some ''user'', content = Some ''I love hiking''\<rparr>,
         \<lparr>role = Some ''assistant'', content = Some ''Hiking is fun''\<rparr>,
         \<lparr>role = None, content = Some ''hiking boots''\<rparr>] []))
   = [''[user] I love hiking'']"
  by code_simp

section \<open>Properties of the key derivation\<close>

lemma filter_same_key:
  "distinct (map f xs) \<Longrightarrow> k \<in> set xs \<Longrightarrow> filter (\<lambda>x. f k = f x) xs = [k]"
proof (induction xs)
  case Nil
  then show ?case by simp
next
  case (Cons a xs)
  show ?case
  proof (cases "k = a")
    case True
    from Cons.prems(1) have "\<forall>x \<in> set xs. f a \<noteq> f x" by auto
    then have "filter (\<lambda>x. f a = f x) xs = []" by (simp add: filter_empty_conv)
    with True show ?thesis by simp
  next
    case False
    with Cons.prems have k: "k \<in> set xs" and d: "distinct (map f xs)" by auto
    from Cons.prems(1) have "f a \<notin> f ` set xs" by simp
    with k have "f k \<noteq> f a" by (metis imageI)
    with Cons.IH[OF d k] show ?thesis by simp
  qed
qed

lemma sort_key_permutation:
  assumes "mset xs = mset ys" and "distinct (map f xs)"
  shows "sort_key f xs = sort_key f ys"
proof -
  have dy: "distinct (map f ys)"
    using assms by (metis mset_eq_imp_distinct_iff mset_map)
  have ds: "distinct (map f (sort_key f xs))"
    using assms(2) by (metis mset_eq_imp_distinct_iff mset_map mset_sort)
  have "sort_key f ys = sort_key f xs"
  proof (rule properties_for_sort_key)
    show "mset (sort_key f xs) = mset ys" using assms(1) by simp
    show "sorted (map f (sort_key f xs))" by (rule sorted_sort_key)
    fix k assume k: "k \<in> set (sort_key f xs)"
    then have "k \<in> set ys" using assms(1) by (metis mset_eq_setD set_sort)
    with filter_same_key[OF dy] filter_same_key[OF ds k]
    show "filter (\<lambda>x. f k = f x) (sort_key f xs) = filter (\<lambda>x. f k = f x) ys" by simp
  qed
  then show ?thesis by simp
qed

lemma json_equiv_dumps: "json_equiv a b \<Longrightarrow> json_dumps a = json_dumps b"
proof (induction rule: json_equiv.induct)
  case (equiv_list xs ys)
  then have "map json_dumps xs = map json_dumps ys"
    by (induction rule: list_all2_induct) auto
  then show ?case by simp
next
  case (equiv_dict xs zs ys)
  let ?g = "\<lambda>(k, v). (k, json_dumps v)"
  from equiv_dict(3) have m: "map ?g xs = map ?g zs"
    by (induction rule: list_all2_induct) (auto simp: case_prod_unfold)
  have "map fst (map ?g xs) = map fst xs"
    by (simp add: comp_def case_prod_unfold)
  with equiv_dict(1) have d: "distinct (map fst (map ?g xs))" by (simp only:)
  from equiv_dict(2) have "mset (map ?g zs) = mset (map ?g ys)" by simp
  with m have "mset (map ?g xs) = mset (map ?g ys)" by simp
  from sort_key_permutation[OF this d] show ?case by simp
qed simp_all

lemma sort_key_idem: "sort_key f (sort_key f xs) = sort_key f xs"
  by (rule sort_key_id_if_sorted) (rule sorted_sort_key)

lemma json_dumps_sorted_items:
  "json_dumps (JDict (sort_key fst items)) = json_dumps (JDict items)"
proof -
  let ?g = "\<lambda>(k, v). (k, json_dumps v)"
  have g: "(\<lambda>y. fst (?g y)) = fst" by (auto simp: case_prod_unfold)
  have "sort_key fst (map ?g (sort_key fst items)) = map ?g (sort_key fst (sort_key fst items))"
    by (simp only: sort_key_map g)
  also have "\<dots> = sort_key fst (map ?g items)"
    by (simp only: sort_key_idem sort_key_map g)
  finally show ?thesis by simp
qed

text \<open>
  The escapes of a string: the quote, the backslash, the line feed and the control
  character U+0001 are escaped, the letter U+00E9 is written as it is.
\<close>

lemma json_string_escapes:
  \<open>json_string [CHR ''a'', CHR 0x22, CHR 0x5C, CHR 0x0A, CHR 0x01, CHR 0xE9]
     = [CHR 0x22, CHR ''a'', CHR 0x5C, CHR 0x22, CHR 0x5C, CHR 0x5C, CHR 0x5C, CHR ''n'', CHR 0x5C]
         @ ''u0001'' @ [CHR 0xE9, CHR 0x22]\<close>
  by code_simp

lemma llm_payload_dumps:
  \<open>json_dumps (JDict [(''user_input'', JStr u), (''system_prompt'', JStr s)])
     = ''{"system_prompt": '' @ json_string s @ '', "user_input": '' @ json_string u @ ''}''\<close>
proof -
  have "sort_key fst [(''user_input'', json_string u), (''system_prompt'', json_string s)]
      = [(''system_prompt'', json_string s), (''user_input'', json_string u)]"
    by code_simp
  moreover have \<open>json_string ''system_prompt'' = ''"system_prompt"''\<close>
     \<open>json_string ''user_input'' = ''"user_input"''\<close>
    by code_simp+
  ultimately show ?thesis by simp
qed

text \<open>
  Claim C9 (key derivation). Payloads that are equal as Python values, whatever the order
  of the items of their dictionaries at any depth, get the same key. A key is the prefix, a
  colon and the digest (the hexadecimal digest of \<^verbatim>\<open>hashlib.md5\<close>) of the serialisation
  of the payload, and that serialisation is the canonical one: it is the serialisation of
  the dictionary with its items sorted by key. What is hashed is pinned down: the key of an
  LLM response is the digest of the text
  \<^verbatim>\<open>{"system_prompt": <string>, "user_input": <string>}\<close> with the two strings quoted and
  escaped, and a nested payload given with its keys out of order is serialised as Python
  serialises it.
\<close>

theorem generate_key_deterministic:
  \<open>(json_equiv a b \<longrightarrow>
      generate_key md5_hexdigest key_prefix a = generate_key md5_hexdigest key_prefix b)
   \<and> generate_key md5_hexdigest key_prefix a
       = key_prefix @ '':'' @ md5_hexdigest (json_dumps a)
   \<and> json_dumps (JDict (sort_key fst items)) = json_dumps (JDict items)
   \<and> llm_cache_key md5_hexdigest user_input system_prompt
       = ''llm:'' @ md5_hexdigest (''{"system_prompt": '' @ json_string system_prompt
                                    @ '', "user_input": '' @ json_string user_input @ ''}'')
   \<and> json_dumps (JDict [(''b'', JList [JInt (- 3), JNull, JBool True, JDict []]),
                         (''a'', JStr ''x y'')])
       = ''{"a": "x y", "b": [-3, null, true, {}]}''\<close>
proof -
  have c: \<open>json_dumps (JDict [(''b'', JList [JInt (- 3), JNull, JBool True, JDict []]),
                         (''a'', JStr ''x y'')])
       = ''{"a": "x y", "b": [-3, null, true, {}]}''\<close>
    by code_simp
  have l: \<open>llm_cache_key md5_hexdigest user_input system_prompt
       = ''llm:'' @ md5_hexdigest (''{"system_prompt": '' @ json_string system_prompt
                                    @ '', "user_input": '' @ json_string user_input @ ''}'')\<close>
    unfolding llm_cache_key_def generate_key_def llm_payload_dumps by simp
  have e: "json_equiv a b \<longrightarrow>
      generate_key md5_hexdigest key_prefix a = generate_key md5_hexdigest key_prefix b"
    by (auto simp: generate_key_def dest: json_equiv_dumps)
  from e l c json_dumps_sorted_items[of items] show ?thesis
    by (simp add: generate_key_def)
qed

text \<open>
  The theorem at two payloads that differ in the order of their items, with the identity
  in the place of the digest, so that the key shows the text that is hashed.
\<close>

theorem generate_key_deterministic_witness:
  \<open>json_equiv
     (JDict [(''user_input'', JStr ''hello''), (''system_prompt'', JList [JInt 1, JNull])])
     (JDict [(''system_prompt'', JList [JInt 1, JNull]), (''user_input'', JStr ''hello'')])
   \<and> generate_key (\<lambda>s. s) ''llm''
       (JDict [(''user_input'', JStr ''hello''), (''system_prompt'', JList [JInt 1, JNull])])
     = ''llm:{"system_prompt": [1, null], "user_input": "hello"}''
   \<and> generate_key (\<lambda>s. s) ''llm''
       (JDict [(''system_prompt'', JList [JInt 1, JNull]), (''user_input'', JStr ''hello'')])
     = ''llm:{"system_prompt": [1, null], "user_input": "hello"}''\<close>
proof -
  let ?a = "JDict [(''user_input'', JStr ''hello''), (''system_prompt'', JList [JInt 1, JNull])]"
  let ?b = "JDict [(''system_prompt'', JList [JInt 1, JNull]), (''user_input'', JStr ''hello'')]"
  have e: "json_equiv ?a ?b"
    by (rule equiv_dict[where zs = "[(''user_input'', JStr ''hello''), (''system_prompt'', JList [JInt 1, JNull])]"])
       (auto intro: json_equiv.intros)
  have k: \<open>generate_key (\<lambda>s. s) ''llm'' ?a
      = ''llm:{"system_prompt": [1, null], "user_input": "hello"}''\<close>
    by code_simp
  from generate_key_deterministic[where a = ?a and b = ?b and md5_hexdigest = "\<lambda>s. s"
      and key_prefix = "''llm''"] e k
  show ?thesis by simp
qed

end
